theory Spec2Isabelle
  imports Main "HOL-Library.Multiset"
begin

section \<open>URL extractor: \<^verbatim>\<open>URL_PATTERN\<close> and \<^verbatim>\<open>URL_PATTERN.findall\<close>\<close>

text \<open>
  The pattern of \<^verbatim>\<open>main.py\<close>, line 52, is
  \<^verbatim>\<open>http[s]?://(?:[a-zA-Z]|[0-9]|[$-_@.&+]|[!*\\(\\),]|(?:%[0-9a-fA-F][0-9a-fA-F]))+\<close>.
  A text is a \<^typ>\<open>string\<close>; every class of the pattern is ASCII, so a character outside
  ASCII (one or several bytes above 127 here) belongs to none of them.
  Each alternative of the repeated group is a definition of its own, tried in the order
  of the pattern.
\<close>

definition in_range :: "char \<Rightarrow> char \<Rightarrow> char \<Rightarrow> bool" where
  "in_range lo hi c = ((of_char lo :: nat) \<le> of_char c \<and> (of_char c :: nat) \<le> of_char hi)"

definition cls_alpha :: "char \<Rightarrow> bool" where
  "cls_alpha c = (in_range CHR ''a'' CHR ''z'' c \<or> in_range CHR ''A'' CHR ''Z'' c)"

definition cls_digit :: "char \<Rightarrow> bool" where
  "cls_digit c = in_range CHR ''0'' CHR ''9'' c"

definition cls_punct :: "char \<Rightarrow> bool" where
  "cls_punct c = (in_range CHR ''$'' CHR ''_'' c \<or> c = CHR ''@'' \<or> c = CHR ''.''
                  \<or> c = CHR ''&'' \<or> c = CHR ''+'')"

definition cls_extra :: "char \<Rightarrow> bool" where
  "cls_extra c = (c = CHR ''!'' \<or> c = CHR ''*'' \<or> c = CHR 0x5C \<or> c = CHR ''(''
                  \<or> c = CHR '')'' \<or> c = CHR '','')"

definition cls_hex :: "char \<Rightarrow> bool" where
  "cls_hex c = (in_range CHR ''0'' CHR ''9'' c \<or> in_range CHR ''a'' CHR ''f'' c
                \<or> in_range CHR ''A'' CHR ''F'' c)"

text \<open>A literal piece of the pattern: the rest of the text after it, when the text starts with it.\<close>

fun lit :: "string \<Rightarrow> string \<Rightarrow> string option" where
  "lit [] t = Some t"
| "lit (p # ps) [] = None"
| "lit (p # ps) (c # cs) = (if p = c then lit ps cs else None)"

text \<open>One round of the group \<^verbatim>\<open>(?:...)\<close>: the first alternative that matches decides.\<close>

fun url_group :: "string \<Rightarrow> string option" where
  "url_group [] = None"
| "url_group (c # cs) =
     (if cls_alpha c then Some cs
      else if cls_digit c then Some cs
      else if cls_punct c then Some cs
      else if cls_extra c then Some cs
      else (case cs of
              a # b # r \<Rightarrow> if c = CHR ''%'' \<and> cls_hex a \<and> cls_hex b then Some r else None
            | _ \<Rightarrow> None))"

text \<open>
  The greedy repetition: rounds of the group as long as one matches. Nothing follows the
  repetition in the pattern, so the first path the matcher tries succeeds and it never
  backtracks into the repetition. The result is the text consumed and the text left.
\<close>

function url_star :: "string \<Rightarrow> string \<times> string" where
  "url_star t =
     (case url_group t of
        None \<Rightarrow> ([], t)
      | Some r \<Rightarrow> (case url_star r of (m, rest) \<Rightarrow> (take (length t - length r) t @ m, rest)))"
  by pat_completeness auto
termination
proof -
  have shorter: "url_group t = Some r \<Longrightarrow> length r < length t" for t r
    by (cases t) (auto split: if_splits list.splits)
  show ?thesis
    by (relation "measure length") (auto dest: shorter)
qed

declare url_star.simps [simp del]

text \<open>\<^verbatim>\<open>://\<close> and at least one round of the group.\<close>

definition url_tail :: "string \<Rightarrow> (string \<times> string) option" where
  "url_tail t =
     (case lit ''://'' t of
        None \<Rightarrow> None
      | Some r \<Rightarrow> (case url_group r of None \<Rightarrow> None | Some _ \<Rightarrow> Some (url_star r)))"

text \<open>
  \<^verbatim>\<open>URL_PATTERN.match\<close> at the start of a text: the matched text and the rest.
  \<^verbatim>\<open>[s]?\<close> is greedy: the matcher first takes an \<^verbatim>\<open>s\<close> when there is one, and
  comes back to the empty choice when the remainder of the pattern fails.
\<close>

definition url_match :: "string \<Rightarrow> (string \<times> string) option" where
  "url_match t =
     (case lit ''http'' t of
        None \<Rightarrow> None
      | Some r \<Rightarrow>
          (case (case r of
                   [] \<Rightarrow> None
                 | c # r' \<Rightarrow> if c = CHR ''s'' then url_tail r' else None) of
             Some (body, rest) \<Rightarrow> Some (''https://'' @ body, rest)
           | None \<Rightarrow>
               (case url_tail r of
                  Some (body, rest) \<Rightarrow> Some (''http://'' @ body, rest)
                | None \<Rightarrow> None)))"

text \<open>
  \<^verbatim>\<open>URL_PATTERN.findall(text)\<close>: the matcher is tried at each position from left to
  right; after a match the scan goes on where the match ended (a match is never empty),
  otherwise one character further. The pattern has no capturing group, so each result is
  the whole matched text.
\<close>

function findall :: "string \<Rightarrow> string list" where
  "findall t =
     (if t = [] then []
      else (case url_match t of
              Some (m, rest) \<Rightarrow> m # findall rest
            | None \<Rightarrow> findall (tl t)))"
  by pat_completeness auto
termination
proof (relation "measure length")
  show "wf (measure length)" by simp
next
  fix t :: string
  assume "t \<noteq> []"
  then show "(tl t, t) \<in> measure length" by (cases t) simp_all
next
  fix t m rest :: string and x
  assume ne: "t \<noteq> []" and m: "url_match t = Some x" and x: "(m, rest) = x"
  have star: "length (snd (url_star u)) \<le> length u" for u
  proof (induction u rule: url_star.induct)
    case (1 u)
    show ?case
    proof (cases "url_group u")
      case None
      then show ?thesis by (simp add: url_star.simps [of u])
    next
      case (Some r)
      have "length r < length u"
        using Some by (cases u) (auto split: if_splits list.splits)
      with 1 [OF Some] Some show ?thesis
        by (cases "url_star r") (simp add: url_star.simps [of u])
    qed
  qed
  have lit_len: "lit p u = Some r \<Longrightarrow> length r + length p = length u" for p u r
    by (induction p u rule: lit.induct) (auto split: if_splits)
  have tail: "url_tail u = Some (b, r) \<Longrightarrow> length r < length u" for u b r
  proof -
    assume a: "url_tail u = Some (b, r)"
    then obtain v where v: "lit ''://'' u = Some v" and r: "r = snd (url_star v)"
      by (auto simp: url_tail_def split: option.splits)
    from lit_len [OF v] star [of v] r show ?thesis by simp
  qed
  from m x obtain v where v: "lit ''http'' t = Some v"
    by (auto simp: url_match_def split: option.splits)
  from m x v have "length rest < length v"
    by (auto simp: url_match_def split: option.splits list.splits if_splits
             dest!: tail)
  with lit_len [OF v] show "(rest, t) \<in> measure length" by simp
qed

declare findall.simps [simp del]

text \<open>
  The URL grammar in the words of the specification: the scheme \<^verbatim>\<open>http\<close> or
  \<^verbatim>\<open>https\<close>, \<^verbatim>\<open>://\<close>, and one or more allowed characters. A percent-encoded triple
  is three allowed characters, since \<^verbatim>\<open>%\<close> lies in the range \<^verbatim>\<open>$-_\<close>.
\<close>

definition url_char :: "char \<Rightarrow> bool" where
  "url_char c = (cls_alpha c \<or> cls_digit c \<or> cls_punct c \<or> cls_extra c)"

definition is_url :: "string \<Rightarrow> bool" where
  "is_url u =
     ((case lit ''https://'' u of Some b \<Rightarrow> b \<noteq> [] \<and> list_all url_char b | None \<Rightarrow> False)
      \<or> (case lit ''http://'' u of Some b \<Rightarrow> b \<noteq> [] \<and> list_all url_char b | None \<Rightarrow> False))"

text \<open>A text contains a URL when one of its substrings is in the grammar.\<close>

definition contains_url :: "string \<Rightarrow> bool" where
  "contains_url t = (\<exists>pre u post. t = pre @ u @ post \<and> is_url u)"

text \<open>
  A text starts with a URL when one of its prefixes is in the grammar. In the text
  \<open>g @ u @ rest\<close> the part \<open>u\<close> is the first match when it is in the grammar, no longer
  URL starts where it starts (the text ends after it, or goes on with a character that is
  not allowed), and no URL starts at an earlier position, that is, inside \<open>g\<close>.
\<close>

definition url_prefix :: "string \<Rightarrow> bool" where
  "url_prefix t = (\<exists>m r. t = m @ r \<and> is_url m)"

definition first_match :: "string \<Rightarrow> string \<Rightarrow> string \<Rightarrow> bool" where
  "first_match g u rest =
     (is_url u \<and> (rest = [] \<or> \<not> url_char (hd rest))
      \<and> (\<forall>p q. g = p @ q \<and> q \<noteq> [] \<longrightarrow> \<not> url_prefix (q @ u @ rest)))"

section \<open>Data model\<close>

text \<open>
  Two records of \<^verbatim>\<open>main.py\<close> have fields of the same name (\<^verbatim>\<open>title\<close>,
  \<^verbatim>\<open>description\<close>, \<^verbatim>\<open>image\<close>), and so have the columns of the table
  \<^verbatim>\<open>links\<close>; a prefix tells them apart: \<open>og_\<close> for \<^verbatim>\<open>OGData\<close>, \<open>ld_\<close> for
  \<^verbatim>\<open>LinkData\<close>, \<open>c_\<close> for a column of \<^verbatim>\<open>links\<close>, \<open>m_\<close> for a Telegram message.
  A \<^verbatim>\<open>datetime\<close> is the number of microseconds it stands for. sqlite3 stores it as its
  ISO text and \<^verbatim>\<open>datetime.fromisoformat\<close> reads the same value back; the order of these
  texts is the order of the values, so \<^verbatim>\<open>ORDER BY date\<close> is the order of the numbers.
\<close>

type_synonym datetime = int

record og_data =
  og_title :: "string option"
  og_description :: "string option"
  og_image :: "string option"

definition OGData :: og_data where
  "OGData = \<lparr>og_title = None, og_description = None, og_image = None\<rparr>"

record link_data =
  ld_url :: string
  ld_title :: string
  ld_description :: string
  ld_date :: datetime
  ld_image :: "string option"
  ld_message_id :: "int option"

text \<open>
  A row of \<^verbatim>\<open>links\<close>. The column \<^verbatim>\<open>id\<close> is never read by the program and is left out;
  the rows are kept in the order of their insertion.
\<close>

record link_row =
  c_chat_id :: string
  c_url :: string
  c_title :: string
  c_description :: string
  c_image :: "string option"
  c_message_id :: "int option"
  c_date :: datetime

text \<open>
  The database: the rows of \<^verbatim>\<open>groups\<close> as pairs \<^verbatim>\<open>(chat_id, token)\<close> (the column
  \<^verbatim>\<open>created_at\<close> is never read) and the rows of \<^verbatim>\<open>links\<close>. The global
  \<^verbatim>\<open>db_conn\<close> is a \<^typ>\<open>'a option\<close>: \<open>None\<close> before \<^verbatim>\<open>init_database\<close>.
\<close>

record db =
  groups :: "(string \<times> string) list"
  links :: "link_row list"

type_synonym db_conn = "db option"

datatype error = IntegrityError

definition empty_db :: db where
  "empty_db = \<lparr>groups = [], links = []\<rparr>"

text \<open>
  \<^verbatim>\<open>init_database\<close> opens the file and creates the two tables only when they are
  missing: the connection holds what the file held.
\<close>

definition init_database :: "db \<Rightarrow> db_conn" where
  "init_database file = Some file"

definition stored_links :: "db_conn \<Rightarrow> link_row list" where
  "stored_links conn = (case conn of None \<Rightarrow> [] | Some d \<Rightarrow> links d)"

definition stored_groups :: "db_conn \<Rightarrow> (string \<times> string) list" where
  "stored_groups conn = (case conn of None \<Rightarrow> [] | Some d \<Rightarrow> groups d)"

subsection \<open>\<^verbatim>\<open>str(chat_id)\<close>\<close>

text \<open>A chat identifier is \<^verbatim>\<open>int | str\<close>; \<^verbatim>\<open>str\<close> writes an integer in decimal.\<close>

datatype chat_id = ChatInt int | ChatStr string

definition digit_char :: "nat \<Rightarrow> char" where
  "digit_char d = char_of (of_char CHR ''0'' + d)"

fun str_nat :: "nat \<Rightarrow> string" where
  "str_nat n = (if n < 10 then [digit_char n] else str_nat (n div 10) @ [digit_char (n mod 10)])"

declare str_nat.simps [simp del]

definition str_int :: "int \<Rightarrow> string" where
  "str_int i = (if i < 0 then CHR ''-'' # str_nat (nat (- i)) else str_nat (nat i))"

fun py_str :: "chat_id \<Rightarrow> string" where
  "py_str (ChatInt i) = str_int i"
| "py_str (ChatStr s) = s"

text \<open>Truth value of an optional string: \<^verbatim>\<open>None\<close> and the empty string are false.\<close>

fun truthy :: "string option \<Rightarrow> bool" where
  "truthy None = False"
| "truthy (Some s) = (s \<noteq> [])"

text \<open>\<^verbatim>\<open>str\<close> of an attribute value that may be \<^verbatim>\<open>None\<close>.\<close>

fun str_opt :: "string option \<Rightarrow> string" where
  "str_opt None = ''None''"
| "str_opt (Some s) = s"

section \<open>Link store\<close>

text \<open>
  The statements run on one connection with \<^verbatim>\<open>PRAGMA foreign_keys=ON\<close>, so the
  constraints of the schema are part of each \<^verbatim>\<open>INSERT\<close>: \<^verbatim>\<open>chat_id\<close> is the primary key
  of \<^verbatim>\<open>groups\<close>, \<^verbatim>\<open>token\<close> is \<^verbatim>\<open>UNIQUE\<close>, and \<^verbatim>\<open>links.chat_id\<close> references
  \<^verbatim>\<open>groups(chat_id)\<close>. A statement that breaks one raises \<^verbatim>\<open>sqlite3.IntegrityError\<close>
  and changes nothing.
\<close>

definition select_token :: "db \<Rightarrow> string \<Rightarrow> string option" where
  "select_token d chat_id_str = map_of (groups d) chat_id_str"

definition insert_group :: "db \<Rightarrow> string \<Rightarrow> string \<Rightarrow> error + db" where
  "insert_group d chat_id_str token =
     (if chat_id_str \<in> set (map fst (groups d)) \<or> token \<in> set (map snd (groups d))
      then Inl IntegrityError
      else Inr (d\<lparr>groups := groups d @ [(chat_id_str, token)]\<rparr>))"

text \<open>
  \<^verbatim>\<open>get_group_token\<close>; \<open>uuid4\<close> is the text \<^verbatim>\<open>str(uuid.uuid4())\<close> drawn by this call.
  The result is the token and the connection after the call; when the \<^verbatim>\<open>INSERT\<close>
  raises, the database is as it was before the call.
\<close>

definition get_group_token :: "db_conn \<Rightarrow> chat_id \<Rightarrow> string \<Rightarrow> error + string \<times> db_conn" where
  "get_group_token conn chat uuid4 =
     (case conn of
        None \<Rightarrow> Inr ([], None)
      | Some d \<Rightarrow>
          (let chat_id_str = py_str chat in
           case select_token d chat_id_str of
             Some token \<Rightarrow> Inr (token, Some d)
           | None \<Rightarrow>
               (case insert_group d chat_id_str uuid4 of
                  Inl e \<Rightarrow> Inl e
                | Inr d' \<Rightarrow> Inr (uuid4, Some d'))))"

definition insert_link :: "db \<Rightarrow> link_row \<Rightarrow> error + db" where
  "insert_link d row =
     (if c_chat_id row \<in> set (map fst (groups d))
      then Inr (d\<lparr>links := links d @ [row]\<rparr>)
      else Inl IntegrityError)"

text \<open>The parameters of the \<^verbatim>\<open>INSERT\<close> of \<^verbatim>\<open>save_link\<close>, as the row they make.\<close>

definition link_row_of :: "string \<Rightarrow> link_data \<Rightarrow> link_row" where
  "link_row_of chat_id_str link_data =
     \<lparr>c_chat_id = chat_id_str, c_url = ld_url link_data,
      c_title = ld_title link_data, c_description = ld_description link_data,
      c_image = ld_image link_data, c_message_id = ld_message_id link_data,
      c_date = ld_date link_data\<rparr>"

definition save_link :: "db_conn \<Rightarrow> chat_id \<Rightarrow> link_data \<Rightarrow> error + db_conn" where
  "save_link conn chat link_data =
     (case conn of
        None \<Rightarrow> Inr None
      | Some d \<Rightarrow>
          (let chat_id_str = py_str chat in
           case insert_link d (link_row_of chat_id_str link_data) of
             Inl e \<Rightarrow> Inl e
           | Inr d' \<Rightarrow> Inr (Some d')))"

text \<open>
  \<^verbatim>\<open>SELECT ... WHERE chat_id = ? ORDER BY date DESC LIMIT ?\<close>. SQL leaves the order of
  rows of equal date open; here they keep the order of their insertion. A negative
  \<^verbatim>\<open>LIMIT\<close> is no limit in SQLite.
\<close>

definition sql_limit :: "int \<Rightarrow> 'a list \<Rightarrow> 'a list" where
  "sql_limit n xs = (if n < 0 then xs else take (nat n) xs)"

definition select_links :: "db \<Rightarrow> string \<Rightarrow> int \<Rightarrow>
    (string \<times> string \<times> string \<times> string option \<times> int option \<times> datetime) list" where
  "select_links d chat_id_str limit =
     map (\<lambda>r. (c_url r, c_title r, c_description r, c_image r, c_message_id r, c_date r))
       (sql_limit limit
          (sort_key (\<lambda>r. - c_date r) (filter (\<lambda>r. c_chat_id r = chat_id_str) (links d))))"

definition get_links :: "db_conn \<Rightarrow> chat_id \<Rightarrow> int \<Rightarrow> link_data list" where
  "get_links conn chat limit =
     (case conn of
        None \<Rightarrow> []
      | Some d \<Rightarrow>
          map (\<lambda>(r0, r1, r2, r3, r4, r5).
                 \<lparr>ld_url = r0, ld_title = r1, ld_description = r2, ld_date = r5,
                  ld_image = r3, ld_message_id = r4\<rparr>)
            (select_links d (py_str chat) limit))"

text \<open>\<^verbatim>\<open>DELETE FROM links WHERE chat_id = ? AND message_id = ?\<close>.\<close>

definition delete_group_links :: "db_conn \<Rightarrow> chat_id \<Rightarrow> int \<Rightarrow> db_conn" where
  "delete_group_links conn chat message_id =
     (case conn of
        None \<Rightarrow> None
      | Some d \<Rightarrow>
          Some (d\<lparr>links :=
                  filter (\<lambda>r. \<not> (c_chat_id r = py_str chat \<and> c_message_id r = Some message_id))
                    (links d)\<rparr>))"

section \<open>Metadata fetcher\<close>

text \<open>
  What the network and the parser give \<^verbatim>\<open>fetch_og_tags\<close>: either an exception somewhere in
  the \<^verbatim>\<open>try\<close> block (network error, timeout, \<^verbatim>\<open>raise_for_status\<close> on a status that is
  not 2xx, parse error), or a parsed page, seen through the five \<^verbatim>\<open>soup.find\<close> calls.
  A \<^verbatim>\<open>find\<close> gives no tag (\<open>None\<close>) or a tag; of a \<^verbatim>\<open>meta\<close> tag the function reads
  \<^verbatim>\<open>get("content")\<close>, which is \<^verbatim>\<open>None\<close> when the attribute is absent, and of the
  \<^verbatim>\<open>title\<close> tag it reads \<^verbatim>\<open>.string\<close>, which may be \<^verbatim>\<open>None\<close> too.
\<close>

record soup =
  find_og_title :: "string option option"
  find_title :: "string option option"
  find_og_description :: "string option option"
  find_meta_description :: "string option option"
  find_og_image :: "string option option"

datatype http_outcome = FetchError | Page soup

definition fetch_og_tags :: "http_outcome \<Rightarrow> og_data" where
  "fetch_og_tags outcome =
     (case outcome of
        FetchError \<Rightarrow> OGData
      | Page s \<Rightarrow>
          (let title1 = (case find_og_title s of
                           Some content \<Rightarrow> Some (str_opt content)
                         | None \<Rightarrow> og_title OGData);
               title2 = (if \<not> truthy title1
                         then (case find_title s of
                                 Some string \<Rightarrow> if truthy string then Some (str_opt string) else None
                               | None \<Rightarrow> title1)
                         else title1);
               desc1 = (case find_og_description s of
                          Some content \<Rightarrow> Some (str_opt content)
                        | None \<Rightarrow> og_description OGData);
               desc2 = (if \<not> truthy desc1
                        then (case find_meta_description s of
                                Some content \<Rightarrow> Some (str_opt content)
                              | None \<Rightarrow> desc1)
                        else desc1);
               image1 = (case find_og_image s of
                           Some content \<Rightarrow> Some (str_opt content)
                         | None \<Rightarrow> og_image OGData)
           in \<lparr>og_title = title2, og_description = desc2, og_image = image1\<rparr>))"

section \<open>Ingestion pipeline\<close>

record user =
  first_name :: string

record message =
  m_message_id :: int
  m_chat_id :: int
  m_from_user :: "user option"
  m_text :: "string option"
  m_caption :: "string option"

record update =
  u_message :: "message option"
  u_edited_message :: "message option"

text \<open>\<^verbatim>\<open>message.text or message.caption or ""\<close>.\<close>

definition message_text :: "message \<Rightarrow> string" where
  "message_text msg =
     (if truthy (m_text msg) then str_opt (m_text msg)
      else if truthy (m_caption msg) then str_opt (m_caption msg)
      else [])"

text \<open>The link built in the body of the loop, from the metadata and the clock.\<close>

definition make_link :: "string \<Rightarrow> string \<Rightarrow> int \<Rightarrow> og_data \<Rightarrow> datetime \<Rightarrow> link_data" where
  "make_link url user_name message_id og now =
     (let title = (if truthy (og_title og) then str_opt (og_title og) else url);
          description = (if truthy (og_description og) then str_opt (og_description og) else []);
          shared_by = ''Shared by '' @ user_name;
          full_description = (if description \<noteq> [] then shared_by @ '' - '' @ description
                              else shared_by)
      in \<lparr>ld_url = url, ld_title = title, ld_description = full_description, ld_date = now,
          ld_image = og_image og, ld_message_id = Some message_id\<rparr>)"

text \<open>
  The loop \<^verbatim>\<open>for url in urls\<close>. \<open>net i\<close> is what the \<open>i\<close>-th fetch of this message
  meets and \<open>clock i\<close> the reading of \<^verbatim>\<open>datetime.now()\<close> after it. The result is the
  exception that left the loop, if any, and the connection: each \<^verbatim>\<open>save_link\<close> commits,
  so the rows saved before an exception stay.
\<close>

fun save_urls :: "db_conn \<Rightarrow> chat_id \<Rightarrow> int \<Rightarrow> string \<Rightarrow> (nat \<Rightarrow> http_outcome) \<Rightarrow>
    (nat \<Rightarrow> datetime) \<Rightarrow> nat \<Rightarrow> string list \<Rightarrow> error option \<times> db_conn" where
  "save_urls conn chat message_id user_name net clock i [] = (None, conn)"
| "save_urls conn chat message_id user_name net clock i (url # urls) =
     (let og = fetch_og_tags (net i);
          link_data = make_link url user_name message_id og (clock i)
      in case save_link conn chat link_data of
           Inl e \<Rightarrow> (Some e, conn)
         | Inr conn' \<Rightarrow> save_urls conn' chat message_id user_name net clock (Suc i) urls)"

text \<open>
  \<^verbatim>\<open>update.message or update.edited_message\<close>, and
  \<^verbatim>\<open>message.from_user.first_name if message.from_user else "Unknown"\<close>.
\<close>

definition update_message :: "update \<Rightarrow> message option" where
  "update_message upd = (case u_message upd of Some m \<Rightarrow> Some m | None \<Rightarrow> u_edited_message upd)"

definition sender_name :: "message \<Rightarrow> string" where
  "sender_name msg = (case m_from_user msg of Some u \<Rightarrow> first_name u | None \<Rightarrow> ''Unknown'')"

definition handle_message :: "db_conn \<Rightarrow> update \<Rightarrow> (nat \<Rightarrow> http_outcome) \<Rightarrow>
    (nat \<Rightarrow> datetime) \<Rightarrow> error option \<times> db_conn" where
  "handle_message conn upd net clock =
     (case update_message upd of
        None \<Rightarrow> (None, conn)
      | Some msg \<Rightarrow>
          (let urls = findall (message_text msg) in
           if urls = [] then (None, conn)
           else
             (let message_id = m_message_id msg;
                  user_name = sender_name msg;
                  conn1 = delete_group_links conn (ChatInt (m_chat_id msg)) message_id
              in save_urls conn1 (ChatInt (m_chat_id msg)) message_id user_name net clock 0 urls)))"

section \<open>Feed generator and the route \<^verbatim>\<open>/rss\<close>\<close>

text \<open>
  An \<^verbatim>\<open>ElementTree\<close> element: tag, attributes, text, children. \<^verbatim>\<open>generate_rss\<close> is the
  tree it builds, before \<^verbatim>\<open>ET.tostring\<close> writes it out. The two formatting calls of the
  standard library are parameters: \<open>strftime d\<close> is
  \<^verbatim>\<open>d.strftime("%a, %d %b %Y %H:%M:%S +0000")\<close> and \<open>timestamp d\<close> is the text of the
  float \<^verbatim>\<open>d.timestamp()\<close>.
\<close>

datatype xml = Element (elem_tag: string) (elem_attrib: "(string \<times> string) list")
  (elem_text: "string option") (elem_children: "xml list")

definition text_element :: "string \<Rightarrow> string \<Rightarrow> xml" where
  "text_element t s = Element t [] (Some s) []"

definition rss_item :: "(datetime \<Rightarrow> string) \<Rightarrow> (datetime \<Rightarrow> string) \<Rightarrow> link_data \<Rightarrow> xml" where
  "rss_item strftime timestamp link =
     Element ''item'' [] None
       ([text_element ''title'' (ld_title link),
         text_element ''link'' (ld_url link),
         text_element ''description'' (ld_description link),
         text_element ''pubDate'' (strftime (ld_date link)),
         text_element ''guid'' (ld_url link @ ''_'' @ timestamp (ld_date link))]
        @ (if truthy (ld_image link)
           then [Element ''enclosure''
                   [(''url'', str_opt (ld_image link)), (''type'', ''image/jpeg'')] None []]
           else []))"

definition generate_rss :: "db_conn \<Rightarrow> string \<Rightarrow> (datetime \<Rightarrow> string) \<Rightarrow> (datetime \<Rightarrow> string) \<Rightarrow>
    datetime \<Rightarrow> chat_id \<Rightarrow> xml" where
  "generate_rss conn APP_URL strftime timestamp now chat =
     (let links_list = get_links conn chat 50 in
      Element ''rss'' [(''version'', ''2.0'')] None
        [Element ''channel'' [] None
           ([text_element ''title'' ''Telegram Group Links'',
             text_element ''link'' (APP_URL @ ''/rss/'' @ py_str chat),
             text_element ''description'' ''Links shared in Telegram group'',
             text_element ''lastBuildDate'' (strftime now)]
            @ map (rss_item strftime timestamp) links_list)])"

text \<open>The entries of a feed: the \<^verbatim>\<open>item\<close> children of its channel, and the identifier of one.\<close>

definition rss_items :: "xml \<Rightarrow> xml list" where
  "rss_items doc =
     concat (map (\<lambda>channel. filter (\<lambda>e. elem_tag e = ''item'') (elem_children channel))
               (elem_children doc))"

definition item_field :: "string \<Rightarrow> xml \<Rightarrow> string option" where
  "item_field t item =
     (case filter (\<lambda>e. elem_tag e = t) (elem_children item) of
        [] \<Rightarrow> None
      | e # _ \<Rightarrow> elem_text e)"

text \<open>
  \<^verbatim>\<open>rss_feed\<close>: it raises \<^verbatim>\<open>HTTPException(status_code, detail)\<close> or returns
  \<^verbatim>\<open>Response(content, media_type)\<close>.
\<close>

datatype http_exception = HTTPException nat string

datatype response = Response xml string

definition rss_feed :: "db_conn \<Rightarrow> string \<Rightarrow> (datetime \<Rightarrow> string) \<Rightarrow> (datetime \<Rightarrow> string) \<Rightarrow>
    datetime \<Rightarrow> string \<Rightarrow> http_exception + response" where
  "rss_feed conn APP_URL strftime timestamp now token =
     (case conn of
        None \<Rightarrow> Inl (HTTPException 500 ''Database not initialized'')
      | Some d \<Rightarrow>
          (case filter (\<lambda>g. snd g = token) (groups d) of
             [] \<Rightarrow> Inl (HTTPException 401 ''Unauthorized: Invalid token'')
           | result # _ \<Rightarrow>
               Inr (Response
                      (generate_rss conn APP_URL strftime timestamp now (ChatStr (fst result)))
                      ''application/rss+xml'')))"

text \<open>
  The route \<^verbatim>\<open>@app.get("/rss")\<close> as FastAPI serves it. The parameter is declared
  \<^verbatim>\<open>token: str = Query(...)\<close>, a required query parameter: a request without it is
  answered 422 by the validation of the framework and \<^verbatim>\<open>rss_feed\<close> is not called. An
  \<^verbatim>\<open>HTTPException\<close> becomes a JSON answer of its status code carrying its detail, a
  \<^verbatim>\<open>Response\<close> is sent with status 200.
\<close>

datatype body = RssXml xml | JsonDetail string | JsonValidationError

record http_reply =
  status :: nat
  content_type :: string
  payload :: body

definition get_rss :: "db_conn \<Rightarrow> string \<Rightarrow> (datetime \<Rightarrow> string) \<Rightarrow> (datetime \<Rightarrow> string) \<Rightarrow>
    datetime \<Rightarrow> string option \<Rightarrow> http_reply" where
  "get_rss conn APP_URL strftime timestamp now query_token =
     (case query_token of
        None \<Rightarrow> \<lparr>status = 422, content_type = ''application/json'', payload = JsonValidationError\<rparr>
      | Some token \<Rightarrow>
          (case rss_feed conn APP_URL strftime timestamp now token of
             Inl (HTTPException status_code detail) \<Rightarrow>
               \<lparr>status = status_code, content_type = ''application/json'',
                payload = JsonDetail detail\<rparr>
           | Inr (Response content media_type) \<Rightarrow>
               \<lparr>status = 200, content_type = media_type, payload = RssXml content\<rparr>))"

section \<open>The running program\<close>

text \<open>
  \<^verbatim>\<open>main\<close> calls \<^verbatim>\<open>init_database\<close> before it starts the bot and the server. From
  then on the two handlers of the bot are the only writers, and the bot runs one handler
  at a time: \<open>evolves conn conn'\<close> says that the connection \<open>conn\<close> becomes \<open>conn'\<close>
  by some sequence of handled updates. The file starts empty.
\<close>

inductive evolves :: "db_conn \<Rightarrow> db_conn \<Rightarrow> bool" where
  same: "evolves conn conn"
| message: "evolves conn conn' \<Longrightarrow> evolves conn (snd (handle_message conn' upd net clock))"
| rssfeed: "evolves conn conn' \<Longrightarrow> get_group_token conn' chat uuid4 = Inr (token, conn'') \<Longrightarrow>
            evolves conn conn''"

definition reachable :: "db_conn \<Rightarrow> bool" where
  "reachable conn = evolves (init_database empty_db) conn"

text \<open>The constraints of the table \<^verbatim>\<open>groups\<close>: no two rows share a chat or a token.\<close>

definition token_bijection :: "db_conn \<Rightarrow> bool" where
  "token_bijection conn =
     (distinct (map fst (stored_groups conn)) \<and> distinct (map snd (stored_groups conn)))"

section \<open>Notions used in the statements\<close>

text \<open>
  The stored links of one message of one group, the stored links of one group, whether a
  group has a row in \<^verbatim>\<open>groups\<close>, the link a row is read back as, and the rows that the
  loop of \<^verbatim>\<open>handle_message\<close> builds for a list of URLs, in their order.
\<close>

definition links_of :: "db_conn \<Rightarrow> string \<Rightarrow> int \<Rightarrow> link_row list" where
  "links_of conn g m =
     filter (\<lambda>r. c_chat_id r = g \<and> c_message_id r = Some m) (stored_links conn)"

definition other_links :: "db_conn \<Rightarrow> string \<Rightarrow> int \<Rightarrow> link_row list" where
  "other_links conn g m =
     filter (\<lambda>r. \<not> (c_chat_id r = g \<and> c_message_id r = Some m)) (stored_links conn)"

definition group_links :: "db_conn \<Rightarrow> string \<Rightarrow> link_row list" where
  "group_links conn g = filter (\<lambda>r. c_chat_id r = g) (stored_links conn)"

definition registered :: "db_conn \<Rightarrow> string \<Rightarrow> bool" where
  "registered conn g = (g \<in> set (map fst (stored_groups conn)))"

definition link_of_row :: "link_row \<Rightarrow> link_data" where
  "link_of_row r =
     \<lparr>ld_url = c_url r, ld_title = c_title r, ld_description = c_description r,
      ld_date = c_date r, ld_image = c_image r, ld_message_id = c_message_id r\<rparr>"

fun ingested_rows :: "string \<Rightarrow> int \<Rightarrow> string \<Rightarrow> (nat \<Rightarrow> http_outcome) \<Rightarrow>
    (nat \<Rightarrow> datetime) \<Rightarrow> nat \<Rightarrow> string list \<Rightarrow> link_row list" where
  "ingested_rows g m user_name net clock i [] = []"
| "ingested_rows g m user_name net clock i (url # urls) =
     link_row_of g (make_link url user_name m (fetch_og_tags (net i)) (clock i))
       # ingested_rows g m user_name net clock (Suc i) urls"

text \<open>
  A small world for the examples: the group of chat 1 has a token, the sender is Ann,
  every fetch fails and the clock reads 0; dates are written as plain numbers; \<open>ex_rows n\<close>
  is \<open>n\<close> links of the group with the dates \<open>0\<close> to \<open>n - 1\<close>.
\<close>

definition ex_db :: db where
  "ex_db = \<lparr>groups = [(''1'', ''token-1'')], links = []\<rparr>"

definition ex_message :: "string \<Rightarrow> message" where
  "ex_message t =
     \<lparr>m_message_id = 7, m_chat_id = 1, m_from_user = Some \<lparr>first_name = ''Ann''\<rparr>,
      m_text = Some t, m_caption = None\<rparr>"

definition ex_new :: "string \<Rightarrow> update" where
  "ex_new t = \<lparr>u_message = Some (ex_message t), u_edited_message = None\<rparr>"

definition ex_edit :: "string \<Rightarrow> update" where
  "ex_edit t = \<lparr>u_message = None, u_edited_message = Some (ex_message t)\<rparr>"

definition ex_net :: "nat \<Rightarrow> http_outcome" where
  "ex_net i = FetchError"

definition ex_clock :: "nat \<Rightarrow> datetime" where
  "ex_clock i = 0"

definition ex_fmt :: "datetime \<Rightarrow> string" where
  "ex_fmt d = str_int d"

definition ex_row :: "string \<Rightarrow> link_row" where
  "ex_row u =
     \<lparr>c_chat_id = ''1'', c_url = u, c_title = u, c_description = ''Shared by Ann'',
      c_image = None, c_message_id = Some 7, c_date = 0\<rparr>"

definition ex_rows :: "nat \<Rightarrow> link_row list" where
  "ex_rows n = map (\<lambda>i. (ex_row ''http://a.example/x'')\<lparr>c_date := int i\<rparr>) [0..<n]"

definition ex_link :: link_data where
  "ex_link = \<lparr>ld_url = ''http://b.example/y'', ld_title = ''B'',
     ld_description = ''Shared by Ann - about b'', ld_date = 5,
     ld_image = Some ''http://b.example/i.png'', ld_message_id = Some 8\<rparr>"

section \<open>Properties of the URL extractor\<close>

lemma lit_Some_iff: "lit p t = Some r \<longleftrightarrow> t = p @ r"
  by (induction p t rule: lit.induct) auto

lemma lit_None_iff: "lit p t = None \<longleftrightarrow> (\<forall>r. t \<noteq> p @ r)"
  using lit_Some_iff [of p t] by (cases "lit p t") auto

lemma lit_append [simp]: "lit p (p @ r) = Some r"
  by (simp add: lit_Some_iff)

lemma percent_punct: "cls_punct CHR ''%''"
  by (simp add: cls_punct_def in_range_def)

lemma url_group_Cons: "url_group (c # cs) = (if url_char c then Some cs else None)"
  using percent_punct by (auto simp: url_char_def split: list.splits)

lemma url_star_eq: "url_star t = (takeWhile url_char t, dropWhile url_char t)"
proof (induction t)
  case Nil
  show ?case by (simp add: url_star.simps [of "[]"])
next
  case (Cons c cs)
  then show ?case
    by (simp add: url_star.simps [of "c # cs"] url_group_Cons del: url_group.simps)
qed

lemma url_tail_eq:
  "url_tail t =
     (case lit ''://'' t of
        None \<Rightarrow> None
      | Some r \<Rightarrow> if r \<noteq> [] \<and> url_char (hd r)
                  then Some (takeWhile url_char r, dropWhile url_char r) else None)"
  unfolding url_tail_def url_star_eq
  by (cases "lit ''://'' t"; simp) (case_tac a; simp add: url_group_Cons del: url_group.simps(2))

lemma is_url_iff:
  "is_url u \<longleftrightarrow> (\<exists>b. b \<noteq> [] \<and> list_all url_char b \<and> (u = ''https://'' @ b \<or> u = ''http://'' @ b))"
  unfolding is_url_def by (auto simp: lit_Some_iff split: option.splits)

lemma is_url_chars: "is_url u \<Longrightarrow> list_all url_char u"
  by (auto simp: is_url_iff url_char_def cls_alpha_def cls_punct_def in_range_def)

lemma takeWhile_all_stop:
  "list_all P b \<Longrightarrow> r = [] \<or> \<not> P (hd r) \<Longrightarrow> takeWhile P (b @ r) = b \<and> dropWhile P (b @ r) = r"
  by (cases r) (auto simp: list_all_iff takeWhile_append2 dropWhile_append2)

lemma url_match_Some_iff:
  "url_match t = Some (m, r) \<longleftrightarrow> t = m @ r \<and> is_url m \<and> (r = [] \<or> \<not> url_char (hd r))"
proof
  assume "url_match t = Some (m, r)"
  then obtain b v where v: "lit ''://'' v = Some b" "b \<noteq> []" "url_char (hd b)"
      and r: "r = dropWhile url_char b"
      and m: "(t = ''https'' @ v \<and> m = ''https://'' @ takeWhile url_char b)
              \<or> (t = ''http'' @ v \<and> m = ''http://'' @ takeWhile url_char b)"
    by (auto simp: url_match_def url_tail_eq lit_Some_iff split: option.splits list.splits if_splits)
  from v have tw: "takeWhile url_char b \<noteq> []" by (cases b) auto
  have all: "list_all url_char (takeWhile url_char b)"
    by (simp add: list_all_iff) (meson set_takeWhileD)
  have stop: "r = [] \<or> \<not> url_char (hd r)"
    unfolding r using hd_dropWhile [of url_char b] by blast
  have "takeWhile url_char b @ r = b" unfolding r by simp
  with v m have "t = m @ r" by (auto simp: lit_Some_iff)
  moreover from m tw all have "is_url m" unfolding is_url_iff by blast
  ultimately show "t = m @ r \<and> is_url m \<and> (r = [] \<or> \<not> url_char (hd r))"
    using stop by blast
next
  assume a: "t = m @ r \<and> is_url m \<and> (r = [] \<or> \<not> url_char (hd r))"
  then obtain b where b: "b \<noteq> []" "list_all url_char b" and m: "m = ''https://'' @ b \<or> m = ''http://'' @ b"
    by (auto simp: is_url_iff)
  from b have hb: "url_char (hd b)" by (cases b) auto
  from b a have tw: "takeWhile url_char (b @ r) = b" "dropWhile url_char (b @ r) = r"
    using takeWhile_all_stop [of url_char b r] by auto
  from m show "url_match t = Some (m, r)"
  proof
    assume "m = ''https://'' @ b"
    with a b hb tw show ?thesis
      by (simp add: url_match_def url_tail_eq)
  next
    assume "m = ''http://'' @ b"
    with a b hb tw show ?thesis
      by (simp add: url_match_def url_tail_eq)
  qed
qed

lemma list_all_takeWhile: "list_all P (takeWhile P xs)"
  by (induction xs) auto

lemma url_match_prefix:
  assumes "is_url m"
  shows "\<exists>m' r'. url_match (m @ r) = Some (m', r')"
proof -
  let ?k = "takeWhile url_char r"
  let ?r' = "dropWhile url_char r"
  from assms obtain b where b: "b \<noteq> []" "list_all url_char b"
    and m: "m = ''https://'' @ b \<or> m = ''http://'' @ b"
    unfolding is_url_iff by blast
  have all: "list_all url_char (b @ ?k)"
    using b(2) by (simp add: list_all_takeWhile)
  have ne: "b @ ?k \<noteq> []" using b(1) by simp
  from m have "m @ ?k = ''https://'' @ (b @ ?k) \<or> m @ ?k = ''http://'' @ (b @ ?k)"
    by auto
  with all ne have u: "is_url (m @ ?k)" unfolding is_url_iff by blast
  have stop: "?r' = [] \<or> \<not> url_char (hd ?r')"
    using hd_dropWhile [of url_char r] by blast
  have "m @ r = (m @ ?k) @ ?r'" by simp
  with u stop have "url_match (m @ r) = Some (m @ ?k, ?r')"
    unfolding url_match_Some_iff by blast
  then show ?thesis by blast
qed

lemma findall_Nil: "findall [] = []"
  by (subst findall.simps) simp

lemma findall_unfold:
  "t \<noteq> [] \<Longrightarrow> findall t = (case url_match t of
              Some (m, rest) \<Rightarrow> m # findall rest
            | None \<Rightarrow> findall (tl t))"
  by (subst findall.simps) (simp only: if_False)

lemma findall_match:
  assumes "url_match t = Some (m, r)"
  shows "findall t = m # findall r"
proof -
  from assms have "t \<noteq> []" by (auto simp: url_match_Some_iff is_url_iff)
  from findall_unfold [OF this] assms show ?thesis by simp
qed

lemma findall_skip:
  assumes "url_match (c # cs) = None"
  shows "findall (c # cs) = findall cs"
  using findall_unfold [of "c # cs"] assms by simp

lemma findall_sound: "u \<in> set (findall t) \<Longrightarrow> is_url u"
proof (induction t arbitrary: u rule: findall.induct)
  case (1 t)
  show ?case
  proof (cases "t = []")
    case True
    with 1 show ?thesis by (simp add: findall_Nil)
  next
    case False
    show ?thesis
    proof (cases "url_match t")
      case None
      from False obtain c cs where t: "t = c # cs" by (cases t) auto
      with None 1(1) [OF False None] 1(3) show ?thesis by (simp add: findall_skip)
    next
      case (Some x)
      obtain m r where x: "x = (m, r)" by (cases x)
      with Some have "findall t = m # findall r" by (simp add: findall_match)
      moreover from Some x have "is_url m" by (simp add: url_match_Some_iff)
      ultimately show ?thesis using 1(2) [OF False Some x [symmetric]] 1(3) by auto
    qed
  qed
qed

lemma contains_url_Cons: "contains_url cs \<Longrightarrow> contains_url (c # cs)"
  unfolding contains_url_def by (metis append_Cons)

lemma findall_nonempty_contains: "findall t \<noteq> [] \<Longrightarrow> contains_url t"
proof (induction t)
  case Nil
  then show ?case by (simp add: findall_Nil)
next
  case (Cons c cs)
  show ?case
  proof (cases "url_match (c # cs)")
    case None
    with Cons show ?thesis by (simp add: findall_skip contains_url_Cons)
  next
    case (Some x)
    obtain m r where x: "x = (m, r)" by (cases x)
    with Some have "c # cs = [] @ m @ r \<and> is_url m" by (simp add: url_match_Some_iff)
    then show ?thesis unfolding contains_url_def by blast
  qed
qed

lemma contains_findall_nonempty: "contains_url t \<Longrightarrow> findall t \<noteq> []"
proof (induction t)
  case Nil
  then show ?case by (auto simp: contains_url_def is_url_iff)
next
  case (Cons c cs)
  show ?case
  proof (cases "url_match (c # cs)")
    case (Some x)
    obtain m r where x: "x = (m, r)" by (cases x)
    with Some show ?thesis by (simp add: findall_match)
  next
    case None
    from Cons.prems obtain pre u post where d: "c # cs = pre @ u @ post" "is_url u"
      unfolding contains_url_def by blast
    have "pre \<noteq> []"
    proof
      assume "pre = []"
      with d None url_match_prefix [of u post] show False by simp
    qed
    then obtain pre' where "pre = c # pre'" using d by (cases pre) auto
    with d have "cs = pre' @ u @ post" by simp
    with d have "contains_url cs" unfolding contains_url_def by blast
    with Cons.IH None show ?thesis by (simp add: findall_skip)
  qed
qed

lemma findall_empty_iff: "findall t = [] \<longleftrightarrow> \<not> contains_url t"
  using findall_nonempty_contains contains_findall_nonempty by blast

lemma findall_weave:
  "\<exists>gs g. length gs = length (findall t)
      \<and> t = concat (map (\<lambda>(g, u). g @ u) (zip gs (findall t))) @ g"
proof (induction t rule: findall.induct)
  case (1 t)
  show ?case
  proof (cases "t = []")
    case True
    then show ?thesis by (simp add: findall_Nil)
  next
    case False
    then obtain c cs where t: "t = c # cs" by (cases t) auto
    show ?thesis
    proof (cases "url_match t")
      case None
      from 1(1) [OF False None] t obtain gs g where
        gs: "length gs = length (findall cs)"
        "cs = concat (map (\<lambda>(g, u). g @ u) (zip gs (findall cs))) @ g"
        by auto
      from None t have f: "findall t = findall cs" by (simp add: findall_skip)
      show ?thesis
      proof (cases gs)
        case Nil
        with gs have "findall cs = []" "t = c # g" using t by auto
        with f show ?thesis by simp
      next
        case (Cons g1 gs')
        with gs(1) obtain u us where us: "findall cs = u # us" by (cases "findall cs") auto
        let ?gs = "(c # g1) # gs'"
        have "length ?gs = length (findall t)" using gs(1) Cons f by simp
        moreover have "t = concat (map (\<lambda>(g, u). g @ u) (zip ?gs (findall t))) @ g"
          using gs(2) Cons us f t by simp
        ultimately show ?thesis by blast
      qed
    next
      case (Some x)
      obtain m r where x: "x = (m, r)" by (cases x)
      from 1(2) [OF False Some x [symmetric]] obtain gs g where
        gs: "length gs = length (findall r)"
        "r = concat (map (\<lambda>(g, u). g @ u) (zip gs (findall r))) @ g"
        by auto
      from Some x have f: "findall t = m # findall r" by (simp add: findall_match)
      from Some x have tm: "t = m @ r" by (simp add: url_match_Some_iff)
      let ?gs = "[] # gs"
      have "length ?gs = length (findall t)" using gs(1) f by simp
      moreover have "t = concat (map (\<lambda>(g, u). g @ u) (zip ?gs (findall t))) @ g"
        using gs(2) f tm by simp
      ultimately show ?thesis by blast
    qed
  qed
qed

lemma findall_gap:
  "\<not> contains_url g \<Longrightarrow> g = [] \<or> \<not> url_char (last g) \<Longrightarrow> findall (g @ t) = findall t"
proof (induction g)
  case Nil
  show ?case by simp
next
  case (Cons c g)
  have last: "\<not> url_char (last (c # g))" using Cons.prems(2) by simp
  have none: "url_match (c # g @ t) = None"
  proof (cases "url_match (c # g @ t)")
    case None
    then show ?thesis .
  next
    case (Some x)
    obtain m r where x: "x = (m, r)" by (cases x)
    with Some have eq: "(c # g) @ t = m @ r" and u: "is_url m"
      by (simp_all add: url_match_Some_iff)
    from eq obtain w where "(c # g = m @ w \<and> w @ t = r) \<or> ((c # g) @ w = m \<and> t = w @ r)"
      unfolding append_eq_append_conv2 by blast
    then show ?thesis
    proof
      assume "c # g = m @ w \<and> w @ t = r"
      then have "c # g = [] @ m @ w" by simp
      with u have "contains_url (c # g)" unfolding contains_url_def by blast
      with Cons.prems(1) show ?thesis by simp
    next
      assume "(c # g) @ w = m \<and> t = w @ r"
      then have "last (c # g) \<in> set m" by (metis last_in_set list.distinct(1) set_append UnCI)
      with is_url_chars [OF u] have "url_char (last (c # g))" by (simp add: list_all_iff)
      with last show ?thesis by simp
    qed
  qed
  have "\<not> contains_url g" using Cons.prems(1) contains_url_Cons by blast
  moreover have "g = [] \<or> \<not> url_char (last g)" using last by (cases g) auto
  ultimately have "findall (g @ t) = findall t" by (rule Cons.IH)
  with none show ?case by (simp add: findall_skip)
qed

lemma findall_compose:
  assumes "is_url u" and "\<not> contains_url g" and "g = [] \<or> \<not> url_char (last g)"
    and "rest = [] \<or> \<not> url_char (hd rest)"
  shows "findall (g @ u @ rest) = u # findall rest"
proof -
  from assms(1,4) have "url_match (u @ rest) = Some (u, rest)"
    by (simp add: url_match_Some_iff)
  then have "findall (u @ rest) = u # findall rest" by (rule findall_match)
  with findall_gap [OF assms(2,3), of "u @ rest"] show ?thesis by simp
qed

lemma url_match_None_iff: "url_match t = None \<longleftrightarrow> \<not> url_prefix t"
proof
  assume n: "url_match t = None"
  show "\<not> url_prefix t"
  proof
    assume "url_prefix t"
    then obtain m r where "t = m @ r" "is_url m" unfolding url_prefix_def by blast
    with url_match_prefix [of m r] n show False by simp
  qed
next
  assume n: "\<not> url_prefix t"
  show "url_match t = None"
  proof (cases "url_match t")
    case None
    then show ?thesis .
  next
    case (Some x)
    obtain m r where "x = (m, r)" by (cases x)
    with Some have "t = m @ r \<and> is_url m" by (simp add: url_match_Some_iff)
    with n show ?thesis unfolding url_prefix_def by blast
  qed
qed

lemma findall_first_match: "first_match g u rest \<Longrightarrow> findall (g @ u @ rest) = u # findall rest"
proof (induction g)
  case Nil
  then have "url_match (u @ rest) = Some (u, rest)"
    by (simp add: first_match_def url_match_Some_iff)
  then show ?case by (simp add: findall_match)
next
  case (Cons c g)
  from Cons.prems have "\<not> url_prefix ((c # g) @ u @ rest)"
    unfolding first_match_def by (metis append_Nil list.distinct(1))
  then have none: "url_match (c # g @ u @ rest) = None" by (simp add: url_match_None_iff)
  have "first_match g u rest"
    unfolding first_match_def
  proof (intro conjI allI impI)
    from Cons.prems show "is_url u" "rest = [] \<or> \<not> url_char (hd rest)"
      by (simp_all add: first_match_def)
  next
    fix p q
    assume "g = p @ q \<and> q \<noteq> []"
    then have "c # g = (c # p) @ q \<and> q \<noteq> []" by simp
    with Cons.prems show "\<not> url_prefix (q @ u @ rest)" unfolding first_match_def by blast
  qed
  from Cons.IH [OF this] none show ?case by (simp add: findall_skip)
qed

lemma first_match_exists:
  "contains_url t \<Longrightarrow> \<exists>g u rest. t = g @ u @ rest \<and> first_match g u rest"
proof (induction t)
  case Nil
  then show ?case by (auto simp: contains_url_def is_url_iff)
next
  case (Cons c cs)
  show ?case
  proof (cases "url_match (c # cs)")
    case (Some x)
    obtain m r where "x = (m, r)" by (cases x)
    with Some have "c # cs = [] @ m @ r" "first_match [] m r"
      by (simp_all add: url_match_Some_iff first_match_def)
    then show ?thesis by blast
  next
    case None
    from Cons.prems obtain pre u post where d: "c # cs = pre @ u @ post" "is_url u"
      unfolding contains_url_def by blast
    have "pre \<noteq> []"
    proof
      assume "pre = []"
      with d None url_match_prefix [of u post] show False by simp
    qed
    then obtain pre' where "pre = c # pre'" using d by (cases pre) auto
    with d have "cs = pre' @ u @ post" by simp
    with d have "contains_url cs" unfolding contains_url_def by blast
    from Cons.IH [OF this] obtain g u' rest where
      g: "cs = g @ u' @ rest" "first_match g u' rest" by blast
    have "first_match (c # g) u' rest"
      unfolding first_match_def
    proof (intro conjI allI impI)
      from g(2) show "is_url u'" "rest = [] \<or> \<not> url_char (hd rest)"
        by (simp_all add: first_match_def)
    next
      fix p q
      assume pq: "c # g = p @ q \<and> q \<noteq> []"
      show "\<not> url_prefix (q @ u' @ rest)"
      proof (cases p)
        case Nil
        with pq g(1) have "q @ u' @ rest = c # cs" by simp
        with None show ?thesis by (simp add: url_match_None_iff)
      next
        case (Cons a p')
        with pq have "g = p' @ q \<and> q \<noteq> []" by simp
        with g(2) show ?thesis unfolding first_match_def by blast
      qed
    qed
    moreover from g(1) have "c # cs = (c # g) @ u' @ rest" by simp
    ultimately show ?thesis by blast
  qed
qed

lemma findall_unique:
  assumes none: "\<And>s. \<not> contains_url s \<Longrightarrow> f s = []"
    and first: "\<And>g u rest. first_match g u rest \<Longrightarrow> f (g @ u @ rest) = u # f rest"
  shows "f t = findall t"
proof (induction t rule: length_induct)
  case (1 t)
  show ?case
  proof (cases "contains_url t")
    case False
    with none [of t] findall_empty_iff [of t] show ?thesis by simp
  next
    case True
    from first_match_exists [OF this] obtain g u rest where
      t: "t = g @ u @ rest" and m: "first_match g u rest" by blast
    from m have "u \<noteq> []" by (auto simp: first_match_def is_url_iff)
    with t have "length rest < length t" by simp
    with 1 have "f rest = findall rest" by blast
    with first [OF m] findall_first_match [OF m] t show ?thesis by simp
  qed
qed

lemma first_match_iff:
  "first_match g u rest \<longleftrightarrow>
     url_match (u @ rest) = Some (u, rest)
     \<and> list_all (\<lambda>i. url_match (drop i (g @ u @ rest)) = None) [0..<length g]"
proof -
  have a: "(\<forall>p q. g = p @ q \<and> q \<noteq> [] \<longrightarrow> \<not> url_prefix (q @ u @ rest))
      \<longleftrightarrow> (\<forall>i < length g. \<not> url_prefix (drop i (g @ u @ rest)))"
  proof
    assume l: "\<forall>p q. g = p @ q \<and> q \<noteq> [] \<longrightarrow> \<not> url_prefix (q @ u @ rest)"
    show "\<forall>i < length g. \<not> url_prefix (drop i (g @ u @ rest))"
    proof (intro allI impI)
      fix i assume "i < length g"
      then have "g = take i g @ drop i g \<and> drop i g \<noteq> []" by simp
      with l have "\<not> url_prefix (drop i g @ u @ rest)" by blast
      with \<open>i < length g\<close> show "\<not> url_prefix (drop i (g @ u @ rest))" by simp
    qed
  next
    assume r: "\<forall>i < length g. \<not> url_prefix (drop i (g @ u @ rest))"
    show "\<forall>p q. g = p @ q \<and> q \<noteq> [] \<longrightarrow> \<not> url_prefix (q @ u @ rest)"
    proof (intro allI impI)
      fix p q assume pq: "g = p @ q \<and> q \<noteq> []"
      then have "length p < length g" by simp
      with r have "\<not> url_prefix (drop (length p) (g @ u @ rest))" by blast
      with pq show "\<not> url_prefix (q @ u @ rest)" by simp
    qed
  qed
  show ?thesis
    unfolding first_match_def a
    by (auto simp: url_match_Some_iff url_match_None_iff list_all_iff)
qed

text \<open>
  Claim C3 (URL extraction). For every text, \<^verbatim>\<open>URL_PATTERN.findall\<close> returns the matches of
  the URL grammar from left to right, without overlap, none left out and repeats kept.
  Each result is in the grammar; the text is the results in their order, each after a
  gap, and a last gap; the result is empty exactly when no substring of the text is in the
  grammar. Whenever a text is a part \<open>g\<close> in which no URL starts, the longest URL \<open>u\<close> that
  starts after it, and a rest, the result is \<open>u\<close> followed by the results of the rest; every
  text that contains a URL is of that form. These two facts determine the extractor: any
  function that returns nothing for a text without URL and \<open>u\<close> followed by its results
  on the rest for a text with first match \<open>u\<close> is \<^verbatim>\<open>findall\<close>. The extractor is a function of
  the text alone.
\<close>

theorem url_extraction:
  "(\<forall>u \<in> set (findall t). is_url u)
   \<and> (\<exists>gs g. length gs = length (findall t)
         \<and> t = concat (map (\<lambda>(g, u). g @ u) (zip gs (findall t))) @ g)
   \<and> (findall t = [] \<longleftrightarrow> \<not> contains_url t)
   \<and> (\<forall>g u rest. is_url u \<longrightarrow> \<not> contains_url g \<longrightarrow> (g = [] \<or> \<not> url_char (last g)) \<longrightarrow>
         (rest = [] \<or> \<not> url_char (hd rest)) \<longrightarrow> findall (g @ u @ rest) = u # findall rest)
   \<and> (\<forall>g u rest. first_match g u rest \<longrightarrow> findall (g @ u @ rest) = u # findall rest)
   \<and> (contains_url t \<longrightarrow> (\<exists>g u rest. t = g @ u @ rest \<and> first_match g u rest))
   \<and> (\<forall>f. (\<forall>s. \<not> contains_url s \<longrightarrow> f s = [])
            \<and> (\<forall>g u rest. first_match g u rest \<longrightarrow> f (g @ u @ rest) = u # f rest)
          \<longrightarrow> f t = findall t)"
proof (intro conjI allI impI ballI)
  fix u assume "u \<in> set (findall t)"
  then show "is_url u" by (rule findall_sound)
next
  show "\<exists>gs g. length gs = length (findall t)
         \<and> t = concat (map (\<lambda>(g, u). g @ u) (zip gs (findall t))) @ g"
    by (rule findall_weave)
next
  show "findall t = [] \<longleftrightarrow> \<not> contains_url t" by (rule findall_empty_iff)
next
  fix g u rest
  assume "is_url u" "\<not> contains_url g" "g = [] \<or> \<not> url_char (last g)"
    "rest = [] \<or> \<not> url_char (hd rest)"
  then show "findall (g @ u @ rest) = u # findall rest" by (rule findall_compose)
next
  fix g u rest
  assume "first_match g u rest"
  then show "findall (g @ u @ rest) = u # findall rest" by (rule findall_first_match)
next
  assume "contains_url t"
  then show "\<exists>g u rest. t = g @ u @ rest \<and> first_match g u rest" by (rule first_match_exists)
next
  fix f :: "string \<Rightarrow> string list"
  assume a: "(\<forall>s. \<not> contains_url s \<longrightarrow> f s = [])
            \<and> (\<forall>g u rest. first_match g u rest \<longrightarrow> f (g @ u @ rest) = u # f rest)"
  show "f t = findall t"
  proof (rule findall_unique)
    fix s assume "\<not> contains_url s"
    with a show "f s = []" by blast
  next
    fix g u rest assume "first_match g u rest"
    with a show "f (g @ u @ rest) = u # f rest" by blast
  qed
qed

theorem url_extraction_witness:
  "is_url ''http://a.example/x''
   \<and> \<not> contains_url ''check this out ''
   \<and> \<not> contains_url '' and ''
   \<and> findall ''check this out http://a.example/x and http://a.example/x''
       = [''http://a.example/x'', ''http://a.example/x'']
   \<and> first_match ''('' ''http://a.example/x'' '' and http://a.example/x''
   \<and> first_match '' and '' ''http://a.example/x'' []
   \<and> contains_url ''(http://a.example/x and http://a.example/x''
   \<and> findall ''(http://a.example/x and http://a.example/x''
       = [''http://a.example/x'', ''http://a.example/x'']"
proof -
  let ?u = "''http://a.example/x''"
  let ?t = "''check this out http://a.example/x and http://a.example/x''"
  have comp: "is_url u \<Longrightarrow> \<not> contains_url g \<Longrightarrow> g = [] \<or> \<not> url_char (last g) \<Longrightarrow>
      rest = [] \<or> \<not> url_char (hd rest) \<Longrightarrow> findall (g @ u @ rest) = u # findall rest"
    for g u rest
    using url_extraction [of "[]"] by blast
  have fm: "first_match g u rest \<Longrightarrow> findall (g @ u @ rest) = u # findall rest" for g u rest
    using url_extraction [of "[]"] by blast
  have emp: "findall t = [] \<Longrightarrow> \<not> contains_url t" for t
    using url_extraction [of t] by blast
  have cont: "findall t \<noteq> [] \<Longrightarrow> contains_url t" for t
    using url_extraction [of t] by blast
  have u: "is_url ?u" by code_simp
  have e1: "findall ''check this out '' = []" by code_simp
  have e2: "findall '' and '' = []" by code_simp
  note g1 = emp [OF e1] and g2 = emp [OF e2]
  have l1: "\<not> url_char (last ''check this out '')" by code_simp
  have l2: "\<not> url_char (last '' and '')" by code_simp
  have h2: "\<not> url_char (hd ('' and '' @ ?u @ []))" by code_simp
  have n: "findall [] = []" by code_simp
  note s2 = comp [OF u g2 disjI2 [OF l2] disjI1 [OF refl]]
  note s1 = comp [OF u g1 disjI2 [OF l1] disjI2 [OF h2]]
  have "''check this out '' @ ?u @ ('' and '' @ ?u @ []) = ?t" by simp
  with s1 s2 n have f: "findall ?t = [?u, ?u]" by simp
  have m1: "first_match ''('' ?u '' and http://a.example/x''"
    unfolding first_match_iff by code_simp
  have m2: "first_match '' and '' ?u []"
    unfolding first_match_iff by code_simp
  have "''('' @ ?u @ ('' and '' @ ?u @ []) = ''(http://a.example/x and http://a.example/x''"
    by simp
  with fm [OF m1] fm [OF m2] n
  have f2: "findall ''(http://a.example/x and http://a.example/x'' = [?u, ?u]" by simp
  then have c2: "contains_url ''(http://a.example/x and http://a.example/x''"
    using cont [of "''(http://a.example/x and http://a.example/x''"] by simp
  from f u g1 g2 m1 m2 c2 f2 show ?thesis by simp
qed

section \<open>Properties of the ingestion pipeline\<close>

lemma save_link_None: "save_link None chat l = Inr None"
  by (simp add: save_link_def)

lemma save_link_Some:
  "save_link (Some d) chat l =
     (if registered (Some d) (py_str chat)
      then Inr (Some (d\<lparr>links := links d @ [link_row_of (py_str chat) l]\<rparr>))
      else Inl IntegrityError)"
  by (simp add: save_link_def insert_link_def registered_def stored_groups_def link_row_of_def)

lemma save_urls_None: "save_urls None chat m user net clock i urls = (None, None)"
  by (induction urls arbitrary: i) (simp_all add: save_link_None)

lemma save_urls_Some:
  "save_urls (Some d) chat m user net clock i urls =
     (if urls = [] then (None, Some d)
      else if registered (Some d) (py_str chat)
      then (None, Some (d\<lparr>links := links d @ ingested_rows (py_str chat) m user net clock i urls\<rparr>))
      else (Some IntegrityError, Some d))"
proof (induction urls arbitrary: d i)
  case Nil
  show ?case by simp
next
  case (Cons url urls)
  show ?case
  proof (cases "registered (Some d) (py_str chat)")
    case False
    then show ?thesis by (simp add: save_link_Some)
  next
    case True
    let ?d' = "d\<lparr>links := links d @ [link_row_of (py_str chat)
                 (make_link url user m (fetch_og_tags (net i)) (clock i))]\<rparr>"
    from True have r': "registered (Some ?d') (py_str chat)"
      by (simp add: registered_def stored_groups_def)
    from True r' show ?thesis
      by (simp add: save_link_Some Cons.IH [of ?d' "Suc i"])
  qed
qed

lemma handle_message_no_message:
  "update_message upd = None \<Longrightarrow> handle_message conn upd net clock = (None, conn)"
  by (simp add: handle_message_def)

lemma handle_message_no_urls:
  "update_message upd = Some msg \<Longrightarrow> findall (message_text msg) = [] \<Longrightarrow>
   handle_message conn upd net clock = (None, conn)"
  by (simp add: handle_message_def)

lemma handle_message_None:
  "handle_message None upd net clock = (None, None)"
  by (auto simp: handle_message_def delete_group_links_def save_urls_None Let_def
           split: option.splits)

lemma handle_message_Some:
  assumes "update_message upd = Some msg" and "findall (message_text msg) \<noteq> []"
  shows "handle_message (Some d) upd net clock =
     (let g = str_int (m_chat_id msg); m = m_message_id msg;
          kept = filter (\<lambda>r. \<not> (c_chat_id r = g \<and> c_message_id r = Some m)) (links d)
      in if registered (Some d) g
         then (None, Some (d\<lparr>links := kept @ ingested_rows g m (sender_name msg) net clock 0
                                            (findall (message_text msg))\<rparr>))
         else (Some IntegrityError, Some (d\<lparr>links := kept\<rparr>)))"
  using assms
  by (simp add: handle_message_def delete_group_links_def save_urls_Some Let_def
        registered_def stored_groups_def)

lemma ingested_rows_chat: "r \<in> set (ingested_rows g m user net clock i urls) \<Longrightarrow>
    c_chat_id r = g \<and> c_message_id r = Some m"
  by (induction urls arbitrary: i) (auto simp: link_row_of_def make_link_def Let_def)

lemma ingested_rows_length [simp]: "length (ingested_rows g m user net clock i urls) = length urls"
  by (induction urls arbitrary: i) auto

lemma ingested_rows_nth:
  "k < length urls \<Longrightarrow> ingested_rows g m user net clock i urls ! k =
     link_row_of g (make_link (urls ! k) user m (fetch_og_tags (net (i + k))) (clock (i + k)))"
proof (induction urls arbitrary: i k)
  case Nil
  then show ?case by simp
next
  case (Cons u urls)
  then show ?case by (cases k) auto
qed

lemma message_text_empty: "m_text msg = None \<Longrightarrow> m_caption msg = None \<Longrightarrow> message_text msg = []"
  by (simp add: message_text_def)

text \<open>
  Claim C9 (no URL, no effect). When the update carries no message, or its message has
  neither body nor caption, or the text resolved from body and caption contains no URL,
  \<^verbatim>\<open>handle_message\<close> returns without an exception and leaves the connection, hence every
  stored row, exactly as it was: nothing is purged and nothing is inserted.
\<close>

theorem no_url_noop:
  assumes "case update_message upd of
             None \<Rightarrow> True
           | Some msg \<Rightarrow> (m_text msg = None \<and> m_caption msg = None)
                         \<or> \<not> contains_url (message_text msg)"
  shows "handle_message conn upd net clock = (None, conn)"
proof (cases "update_message upd")
  case None
  then show ?thesis by (rule handle_message_no_message)
next
  case (Some msg)
  with assms have "(m_text msg = None \<and> m_caption msg = None) \<or> \<not> contains_url (message_text msg)"
    by simp
  then have "findall (message_text msg) = []"
  proof
    assume "m_text msg = None \<and> m_caption msg = None"
    then show ?thesis by (simp add: message_text_empty findall_Nil)
  next
    assume "\<not> contains_url (message_text msg)"
    then show ?thesis by (simp add: findall_empty_iff)
  qed
  with Some show ?thesis by (rule handle_message_no_urls)
qed

theorem no_url_noop_witness:
  "handle_message (Some (ex_db\<lparr>links := [ex_row ''http://a.example/x'']\<rparr>))
     (ex_edit ''no link now'') ex_net ex_clock
     = (None, Some (ex_db\<lparr>links := [ex_row ''http://a.example/x'']\<rparr>))
   \<and> update_message (ex_edit ''no link now'') = Some (ex_message ''no link now'')
   \<and> \<not> contains_url (message_text (ex_message ''no link now''))"
proof -
  have u: "update_message (ex_edit ''no link now'') = Some (ex_message ''no link now'')"
    by (simp add: update_message_def ex_edit_def)
  have t: "message_text (ex_message ''no link now'') = ''no link now''"
    by (simp add: message_text_def ex_message_def)
  have "findall ''no link now'' = []" by code_simp
  with t have n: "\<not> contains_url (message_text (ex_message ''no link now''))"
    by (simp add: findall_empty_iff)
  from u n show ?thesis
    using no_url_noop [of "ex_edit ''no link now''"] by simp
qed


lemma ingested_rows_other:
  "filter (\<lambda>r. \<not> (c_chat_id r = g \<and> c_message_id r = Some m)) (ingested_rows g m user net clock i urls) = []"
  by (simp add: filter_empty_conv ingested_rows_chat)

lemma ingested_rows_same:
  "filter (\<lambda>r. c_chat_id r = g \<and> c_message_id r = Some m) (ingested_rows g m user net clock i urls)
     = ingested_rows g m user net clock i urls"
  by (simp add: filter_id_conv ingested_rows_chat)

lemma handle_message_frame:
  assumes "update_message upd = Some msg"
  shows "\<exists>d'. snd (handle_message (Some d) upd net clock) = Some d' \<and> groups d' = groups d
     \<and> other_links (Some d') (str_int (m_chat_id msg)) (m_message_id msg)
         = other_links (Some d) (str_int (m_chat_id msg)) (m_message_id msg)"
proof (cases "findall (message_text msg) = []")
  case True
  with assms show ?thesis by (simp add: handle_message_no_urls)
next
  case False
  with assms show ?thesis
    by (auto simp: handle_message_Some Let_def other_links_def stored_links_def
          filter_empty_conv dest: ingested_rows_chat)
qed

lemma handle_message_links:
  assumes "update_message upd = Some msg" and "findall (message_text msg) \<noteq> []"
  shows "links_of (snd (handle_message (Some d) upd net clock)) (str_int (m_chat_id msg)) (m_message_id msg)
    = (if registered (Some d) (str_int (m_chat_id msg))
       then ingested_rows (str_int (m_chat_id msg)) (m_message_id msg) (sender_name msg) net clock 0
              (findall (message_text msg))
       else [])"
  using assms
  by (simp add: handle_message_Some Let_def links_of_def stored_links_def ingested_rows_same)

lemma handle_message_twice:
  assumes "update_message upd1 = Some msg1" and "update_message upd2 = Some msg2"
    and "m_chat_id msg1 = m_chat_id msg2" and "m_message_id msg1 = m_message_id msg2"
    and "contains_url (message_text msg2)"
  shows "let g = str_int (m_chat_id msg2); m = m_message_id msg2;
             s1 = snd (handle_message (Some d0) upd1 net1 clock1);
             s2 = snd (handle_message s1 upd2 net2 clock2)
         in links_of (delete_group_links s1 (ChatInt (m_chat_id msg2)) m) g m = []
            \<and> links_of s2 g m =
                (if registered (Some d0) g
                 then ingested_rows g m (sender_name msg2) net2 clock2 0 (findall (message_text msg2))
                 else [])
            \<and> other_links s2 g m = other_links (Some d0) g m"
proof -
  let ?g = "str_int (m_chat_id msg2)" and ?m = "m_message_id msg2"
  from assms(5) have ne: "findall (message_text msg2) \<noteq> []" by (simp add: findall_empty_iff)
  from handle_message_frame [OF assms(1), of d0 net1 clock1] assms(3,4)
  obtain d1 where d1: "snd (handle_message (Some d0) upd1 net1 clock1) = Some d1"
    "groups d1 = groups d0" "other_links (Some d1) ?g ?m = other_links (Some d0) ?g ?m"
    by auto
  from handle_message_frame [OF assms(2), of d1 net2 clock2]
  obtain d2 where d2: "snd (handle_message (Some d1) upd2 net2 clock2) = Some d2"
    "other_links (Some d2) ?g ?m = other_links (Some d1) ?g ?m"
    by auto
  have reg: "registered (Some d1) ?g = registered (Some d0) ?g"
    using d1(2) by (simp add: registered_def stored_groups_def)
  have purge: "links_of (delete_group_links (Some d1) (ChatInt (m_chat_id msg2)) ?m) ?g ?m = []"
    by (simp add: delete_group_links_def links_of_def stored_links_def filter_empty_conv)
  from handle_message_links [OF assms(2) ne, of d1 net2 clock2] reg d1 d2 purge
  show ?thesis by (simp add: Let_def)
qed

lemma str_int_1: "str_int 1 = ''1''"
  by code_simp

lemma ex_first:
  "handle_message (Some ex_db) (ex_new ''http://a.example/x'') ex_net ex_clock
     = (None, Some (ex_db\<lparr>links := [ex_row ''http://a.example/x'']\<rparr>))"
  by code_simp

lemma handle_message_completes:
  assumes "update_message upd = Some msg" and "findall (message_text msg) \<noteq> []"
  shows "fst (handle_message (Some d) upd net clock) = None
     \<longleftrightarrow> registered (Some d) (str_int (m_chat_id msg))"
  using assms by (simp add: handle_message_Some Let_def)

text \<open>
  Claim C1 (edit reconciliation), as amended. Two events of the same group and message
  identifier are handled one after the other; the text of the second contains at least
  one URL and its handling completes. Then the purge of the second removes every stored
  link of that group and message; afterwards the links stored for them are exactly the
  rows built from the URLs of the second event, in their order, and none from the first;
  and the links of every other group or message are those stored before the first event.
\<close>

theorem edit_reconciliation:
  assumes "update_message upd1 = Some msg1" and "update_message upd2 = Some msg2"
    and "m_chat_id msg1 = m_chat_id msg2" and "m_message_id msg1 = m_message_id msg2"
    and "contains_url (message_text msg2)"
    and "fst (handle_message (snd (handle_message (Some d0) upd1 net1 clock1)) upd2 net2 clock2)
           = None"
  shows "let g = str_int (m_chat_id msg2); m = m_message_id msg2;
             s1 = snd (handle_message (Some d0) upd1 net1 clock1);
             s2 = snd (handle_message s1 upd2 net2 clock2)
         in links_of (delete_group_links s1 (ChatInt (m_chat_id msg2)) m) g m = []
            \<and> links_of s2 g m =
                ingested_rows g m (sender_name msg2) net2 clock2 0 (findall (message_text msg2))
            \<and> other_links s2 g m = other_links (Some d0) g m"
proof -
  let ?g = "str_int (m_chat_id msg2)"
  from assms(5) have ne: "findall (message_text msg2) \<noteq> []" by (simp add: findall_empty_iff)
  from handle_message_frame [OF assms(1), of d0 net1 clock1]
  obtain d1 where d1: "snd (handle_message (Some d0) upd1 net1 clock1) = Some d1"
    "groups d1 = groups d0" by auto
  from assms(6) d1 handle_message_completes [OF assms(2) ne, of d1 net2 clock2]
  have "registered (Some d1) ?g" by simp
  with d1(2) have "registered (Some d0) ?g" by (simp add: registered_def stored_groups_def)
  with handle_message_twice [OF assms(1-5), of d0 net1 clock1 net2 clock2]
  show ?thesis by (simp add: Let_def)
qed

text \<open>
  The claim as stated fails for an edit that removes the last URL: \<^verbatim>\<open>handle_message\<close>
  returns before the purge, and the link of the first event stays.
\<close>

theorem edit_without_url_counterexample:
  "links_of (snd (handle_message
       (snd (handle_message (Some ex_db) (ex_new ''http://a.example/x'') ex_net ex_clock))
       (ex_edit ''no link now'') ex_net ex_clock)) ''1'' 7
     = [ex_row ''http://a.example/x'']
   \<and> findall (message_text (ex_message ''no link now'')) = []"
  by code_simp

theorem edit_reconciliation_witness:
  "links_of (snd (handle_message
       (snd (handle_message (Some ex_db) (ex_new ''http://a.example/x'') ex_net ex_clock))
       (ex_edit ''see http://b.example/y'') ex_net ex_clock)) ''1'' 7
     = [ex_row ''http://b.example/y'']
   \<and> contains_url (message_text (ex_message ''see http://b.example/y''))
   \<and> fst (handle_message
       (snd (handle_message (Some ex_db) (ex_new ''http://a.example/x'') ex_net ex_clock))
       (ex_edit ''see http://b.example/y'') ex_net ex_clock) = None"
proof -
  let ?m1 = "ex_message ''http://a.example/x''" and ?m2 = "ex_message ''see http://b.example/y''"
  have u1: "update_message (ex_new ''http://a.example/x'') = Some ?m1"
    by (simp add: update_message_def ex_new_def)
  have u2: "update_message (ex_edit ''see http://b.example/y'') = Some ?m2"
    by (simp add: update_message_def ex_edit_def)
  have c: "m_chat_id ?m1 = m_chat_id ?m2" "m_message_id ?m1 = m_message_id ?m2"
    by (simp_all add: ex_message_def)
  have f: "findall (message_text ?m2) = [''http://b.example/y'']" by code_simp
  then have cu: "contains_url (message_text ?m2)"
    using findall_empty_iff [of "message_text ?m2"] by simp
  have ok: "fst (handle_message
       (snd (handle_message (Some ex_db) (ex_new ''http://a.example/x'') ex_net ex_clock))
       (ex_edit ''see http://b.example/y'') ex_net ex_clock) = None"
    by code_simp
  have g: "str_int (m_chat_id ?m2) = ''1''" "m_message_id ?m2 = 7" by code_simp+
  have rows: "ingested_rows ''1'' 7 (sender_name ?m2) ex_net ex_clock 0 [''http://b.example/y'']
     = [ex_row ''http://b.example/y'']" by code_simp
  from edit_reconciliation [OF u1 u2 c cu ok]
  show ?thesis using f g rows cu ok by (simp add: Let_def)
qed

lemma fetch_og_tags_error:
  "fetch_og_tags FetchError = \<lparr>og_title = None, og_description = None, og_image = None\<rparr>"
  by (simp add: fetch_og_tags_def OGData_def)

lemma make_link_degraded:
  "make_link url user m (fetch_og_tags FetchError) now =
     \<lparr>ld_url = url, ld_title = url, ld_description = ''Shared by '' @ user, ld_date = now,
      ld_image = None, ld_message_id = Some m\<rparr>"
  by (simp add: make_link_def fetch_og_tags_error)

lemma handle_message_completes_same:
  "fst (handle_message conn upd net clock) = fst (handle_message conn upd net' clock')"
proof (cases conn)
  case None
  then show ?thesis by (simp add: handle_message_None)
next
  case (Some d)
  show ?thesis
  proof (cases "update_message upd")
    case None
    then show ?thesis by (simp add: handle_message_no_message)
  next
    case (Some msg)
    show ?thesis
    proof (cases "findall (message_text msg) = []")
      case True
      with Some show ?thesis by (simp add: handle_message_no_urls)
    next
      case False
      with Some \<open>conn = Some d\<close> show ?thesis
        by (simp add: handle_message_Some Let_def)
    qed
  qed
qed

text \<open>
  Where the group has a row in \<^verbatim>\<open>groups\<close>, failed fetches degrade as intended: the
  handling completes, one link is stored per URL, and the link of a URL whose fetch failed
  has the URL as its title and the attribution alone as its description.
\<close>

lemma fetch_failure_registered:
  assumes "update_message upd = Some msg"
    and "contains_url (message_text msg)"
    and "registered (Some d) (str_int (m_chat_id msg))"
  shows "fetch_og_tags FetchError = \<lparr>og_title = None, og_description = None, og_image = None\<rparr>
    \<and> fst (handle_message conn upd net clock) = fst (handle_message conn upd net' clock)
    \<and> fst (handle_message (Some d) upd net clock) = None
    \<and> (let urls = findall (message_text msg);
            rows = links_of (snd (handle_message (Some d) upd net clock))
                     (str_int (m_chat_id msg)) (m_message_id msg)
        in length rows = length urls
           \<and> (\<forall>i < length urls.
                 c_url (rows ! i) = urls ! i
                 \<and> (net i = FetchError \<longrightarrow>
                      c_title (rows ! i) = urls ! i
                      \<and> c_description (rows ! i) = ''Shared by '' @ sender_name msg
                      \<and> c_image (rows ! i) = None)))"
proof -
  from assms(2) have ne: "findall (message_text msg) \<noteq> []" by (simp add: findall_empty_iff)
  have fin: "fst (handle_message (Some d) upd net clock) = None"
    using assms(1,3) ne by (simp add: handle_message_Some Let_def)
  have rows: "links_of (snd (handle_message (Some d) upd net clock))
                 (str_int (m_chat_id msg)) (m_message_id msg)
      = ingested_rows (str_int (m_chat_id msg)) (m_message_id msg) (sender_name msg) net clock 0
          (findall (message_text msg))"
    using handle_message_links [OF assms(1) ne, of d net clock] assms(3) by simp
  have each: "c_url (ingested_rows g m user net clock 0 urls ! i) = urls ! i
      \<and> (net i = FetchError \<longrightarrow>
           c_title (ingested_rows g m user net clock 0 urls ! i) = urls ! i
           \<and> c_description (ingested_rows g m user net clock 0 urls ! i) = ''Shared by '' @ user
           \<and> c_image (ingested_rows g m user net clock 0 urls ! i) = None)"
    if "i < length urls" for g m user urls i
    using that
    by (simp add: ingested_rows_nth link_row_of_def make_link_degraded) (simp add: make_link_def Let_def)
  show ?thesis
    unfolding Let_def rows
    using fetch_og_tags_error handle_message_completes_same [of conn upd net clock net' clock]
      fin each
    by simp
qed

lemma fetch_failure_registered_example:
  "handle_message (Some ex_db) (ex_new ''http://a.example/x http://b.example/y'') ex_net ex_clock
     = (None, Some (ex_db\<lparr>links := [ex_row ''http://a.example/x'', ex_row ''http://b.example/y'']\<rparr>))
   \<and> contains_url (message_text (ex_message ''http://a.example/x http://b.example/y''))
   \<and> registered (Some ex_db) (str_int (m_chat_id (ex_message ''http://a.example/x http://b.example/y'')))
   \<and> c_title (links_of (snd (handle_message (Some ex_db)
          (ex_new ''http://a.example/x http://b.example/y'') ex_net ex_clock)) ''1'' 7 ! 1)
       = ''http://b.example/y''"
proof -
  let ?t = "''http://a.example/x http://b.example/y''"
  have u: "update_message (ex_new ?t) = Some (ex_message ?t)"
    by (simp add: update_message_def ex_new_def)
  have f: "findall (message_text (ex_message ?t)) = [''http://a.example/x'', ''http://b.example/y'']"
    by code_simp
  then have cu: "contains_url (message_text (ex_message ?t))"
    using findall_empty_iff [of "message_text (ex_message ?t)"] by simp
  have r: "registered (Some ex_db) (str_int (m_chat_id (ex_message ?t)))" by code_simp
  have g: "str_int (m_chat_id (ex_message ?t)) = ''1''" "m_message_id (ex_message ?t) = 7"
    by code_simp+
  have e: "ex_net 1 = FetchError" by (simp add: ex_net_def)
  have h: "handle_message (Some ex_db) (ex_new ?t) ex_net ex_clock
     = (None, Some (ex_db\<lparr>links := [ex_row ''http://a.example/x'', ex_row ''http://b.example/y'']\<rparr>))"
    by code_simp
  from fetch_failure_registered [OF u cu r, of None ex_net ex_clock ex_net] f g e
  have "c_title (links_of (snd (handle_message (Some ex_db) (ex_new ?t) ex_net ex_clock)) ''1'' 7 ! 1)
       = ''http://b.example/y''"
    by (simp add: Let_def)
  with h cu r show ?thesis by simp
qed


section \<open>Invariants of the running program\<close>

lemma get_group_token_links:
  "get_group_token conn chat uuid4 = Inr (token, conn') \<Longrightarrow> stored_links conn' = stored_links conn"
  by (auto simp: get_group_token_def insert_group_def stored_links_def Let_def
           split: option.splits sum.splits if_splits)

lemma handle_message_groups:
  "stored_groups (snd (handle_message conn upd net clock)) = stored_groups conn"
proof (cases conn)
  case None
  then show ?thesis by (simp add: handle_message_None)
next
  case (Some d)
  show ?thesis
  proof (cases "update_message upd")
    case None
    then show ?thesis by (simp add: handle_message_no_message)
  next
    case (Some msg)
    from handle_message_frame [OF this, of d net clock] \<open>conn = Some d\<close>
    show ?thesis by (auto simp: stored_groups_def)
  qed
qed

lemma handle_message_Some_conn:
  "\<exists>d'. snd (handle_message (Some d) upd net clock) = Some d'"
proof (cases "update_message upd")
  case None
  then show ?thesis by (simp add: handle_message_no_message)
next
  case (Some msg)
  from handle_message_frame [OF this, of d net clock] show ?thesis by auto
qed

lemma evolves_Some: "evolves conn conn' \<Longrightarrow> conn \<noteq> None \<Longrightarrow> conn' \<noteq> None"
proof (induction rule: evolves.induct)
  case (same conn)
  then show ?case by simp
next
  case (message conn conn' upd net clock)
  then obtain d where "conn' = Some d" by auto
  with handle_message_Some_conn [of d upd net clock] show ?case by auto
next
  case (rssfeed conn conn' chat uuid4 token conn'')
  then show ?case
    by (auto simp: get_group_token_def Let_def split: option.splits sum.splits)
qed

lemma reachable_Some: "reachable conn \<Longrightarrow> \<exists>d. conn = Some d"
  using evolves_Some [of "init_database empty_db" conn]
  by (auto simp: reachable_def init_database_def)

lemma findall_nonempty: "u \<in> set (findall t) \<Longrightarrow> u \<noteq> []"
  using findall_sound [of u t] by (auto simp: is_url_iff)

lemma make_link_title:
  "url \<noteq> [] \<Longrightarrow> ld_title (make_link url user m og now) \<noteq> []"
  by (cases "og_title og") (simp_all add: make_link_def Let_def)

lemma make_link_title_fallback:
  "\<not> truthy (og_title og) \<Longrightarrow> ld_title (make_link url user m og now) = url"
  by (simp add: make_link_def Let_def)

lemma ingested_rows_titles:
  "\<forall>u \<in> set urls. u \<noteq> [] \<Longrightarrow> r \<in> set (ingested_rows g m user net clock i urls) \<Longrightarrow>
   c_title r \<noteq> []"
  by (induction urls arbitrary: i) (auto simp: link_row_of_def make_link_title)

lemma handle_message_titles:
  assumes "\<forall>r \<in> set (stored_links conn). c_title r \<noteq> []"
  shows "\<forall>r \<in> set (stored_links (snd (handle_message conn upd net clock))). c_title r \<noteq> []"
proof (cases conn)
  case None
  then show ?thesis by (simp add: handle_message_None stored_links_def)
next
  case (Some d)
  show ?thesis
  proof (cases "update_message upd")
    case None
    with assms show ?thesis by (simp add: handle_message_no_message)
  next
    case msg: (Some msg)
    show ?thesis
    proof (cases "findall (message_text msg) = []")
      case True
      with msg assms show ?thesis by (simp add: handle_message_no_urls)
    next
      case False
      have "\<forall>u \<in> set (findall (message_text msg)). u \<noteq> []"
        using findall_nonempty by blast
      with assms Some msg False show ?thesis
        by (auto simp: handle_message_Some Let_def stored_links_def dest: ingested_rows_titles)
    qed
  qed
qed

lemma evolves_titles:
  "evolves conn conn' \<Longrightarrow> \<forall>r \<in> set (stored_links conn). c_title r \<noteq> [] \<Longrightarrow>
   \<forall>r \<in> set (stored_links conn'). c_title r \<noteq> []"
proof (induction rule: evolves.induct)
  case (same conn)
  then show ?case .
next
  case (message conn conn' upd net clock)
  from message.IH [OF message.prems] show ?case by (rule handle_message_titles)
next
  case (rssfeed conn conn' chat uuid4 token conn'')
  from rssfeed.IH [OF rssfeed.prems] rssfeed.hyps(2) show ?case
    by (simp add: get_group_token_links)
qed

lemma reachable_titles: "reachable conn \<Longrightarrow> \<forall>r \<in> set (stored_links conn). c_title r \<noteq> []"
  unfolding reachable_def
  by (erule evolves_titles) (simp add: init_database_def empty_db_def stored_links_def)

text \<open>
  Claim C8 (titles are never empty). In every state of the running program each stored
  link has a non-empty title. The title that \<^verbatim>\<open>handle_message\<close> builds for an extracted
  URL is non-empty whatever the fetch met, and it is the URL itself whenever the
  metadata has no title or an empty one.
\<close>

theorem title_never_empty:
  "(reachable conn \<longrightarrow> (\<forall>r \<in> set (stored_links conn). c_title r \<noteq> []))
   \<and> (url \<in> set (findall t) \<longrightarrow>
        ld_title (make_link url user m (fetch_og_tags outcome) now) \<noteq> [])
   \<and> (\<not> truthy (og_title og) \<longrightarrow> ld_title (make_link url user m og now) = url)"
  using reachable_titles [of conn] findall_nonempty [of url t]
    make_link_title [of url user m "fetch_og_tags outcome" now]
    make_link_title_fallback [of og url user m now]
  by blast

lemma ex_token: "get_group_token (Some empty_db) (ChatInt 1) ''token-1'' = Inr (''token-1'', Some ex_db)"
  by code_simp

lemma ex_reachable: "reachable (Some ex_db)"
  unfolding reachable_def init_database_def
  by (rule evolves.rssfeed [OF evolves.same ex_token])

lemma ex_reachable_link: "reachable (Some (ex_db\<lparr>links := [ex_row ''http://a.example/x'']\<rparr>))"
proof -
  have "evolves (init_database empty_db)
          (snd (handle_message (Some ex_db) (ex_new ''http://a.example/x'') ex_net ex_clock))"
    using ex_reachable unfolding reachable_def by (rule evolves.message)
  then show ?thesis by (simp add: ex_first reachable_def)
qed

theorem title_never_empty_witness:
  "reachable (Some (ex_db\<lparr>links := [ex_row ''http://a.example/x'']\<rparr>))
   \<and> c_title (ex_row ''http://a.example/x'') \<noteq> []
   \<and> ''http://a.example/x'' \<in> set (findall ''see http://a.example/x'')
   \<and> \<not> truthy (og_title (fetch_og_tags FetchError))
   \<and> ld_title (make_link ''http://a.example/x'' ''Ann'' 7 (fetch_og_tags FetchError) 0)
       = ''http://a.example/x''"
proof -
  let ?conn = "Some (ex_db\<lparr>links := [ex_row ''http://a.example/x'']\<rparr>)"
  note t = title_never_empty [of ?conn "''http://a.example/x''" "''see http://a.example/x''"
      "''Ann''" 7 FetchError 0 "fetch_og_tags FetchError"]
  have s: "stored_links ?conn = [ex_row ''http://a.example/x'']"
    by (simp add: stored_links_def)
  have f: "''http://a.example/x'' \<in> set (findall ''see http://a.example/x'')" by code_simp
  have n: "\<not> truthy (og_title (fetch_og_tags FetchError))" by (simp add: fetch_og_tags_error)
  from t ex_reachable_link s have "c_title (ex_row ''http://a.example/x'') \<noteq> []" by simp
  moreover from t n have "ld_title (make_link ''http://a.example/x'' ''Ann'' 7
      (fetch_og_tags FetchError) 0) = ''http://a.example/x''" by blast
  ultimately show ?thesis using ex_reachable_link f n by blast
qed

lemma get_group_token_cases:
  assumes "get_group_token (Some d) chat u = Inr (t, conn')"
  shows "(select_token d (py_str chat) = Some t \<and> conn' = Some d)
       \<or> (py_str chat \<notin> set (map fst (groups d)) \<and> u \<notin> set (map snd (groups d)) \<and> t = u
          \<and> conn' = Some (d\<lparr>groups := groups d @ [(py_str chat, u)]\<rparr>))"
  using assms
  by (auto simp: get_group_token_def insert_group_def Let_def
           split: option.splits sum.splits if_splits)

lemma insert_group_bijection:
  "token_bijection (Some d) \<Longrightarrow> insert_group d g t = Inr d' \<Longrightarrow> token_bijection (Some d')"
  by (auto simp: token_bijection_def stored_groups_def insert_group_def split: if_splits)

lemma get_group_token_bijection:
  assumes "get_group_token conn chat u = Inr (t, conn')" and "token_bijection conn"
  shows "token_bijection conn'"
proof (cases conn)
  case None
  with assms show ?thesis by (simp add: get_group_token_def)
next
  case (Some d)
  with get_group_token_cases [of d chat u t conn'] assms show ?thesis
    by (auto simp: token_bijection_def stored_groups_def)
qed

lemma get_group_token_stored:
  assumes "get_group_token (Some d) chat u = Inr (t, conn')"
  shows "(py_str chat, t) \<in> set (stored_groups conn')
       \<and> set (stored_groups (Some d)) \<subseteq> set (stored_groups conn')"
  using get_group_token_cases [OF assms]
  by (auto simp: stored_groups_def select_token_def dest: map_of_SomeD)

lemma map_of_append_new: "g \<notin> set (map fst gs) \<Longrightarrow> map_of (gs @ [(g, u)]) g = Some u"
  by (induction gs) auto

lemma evolves_trans: "evolves b c \<Longrightarrow> evolves a b \<Longrightarrow> evolves a c"
  by (induction rule: evolves.induct) (auto intro: evolves.intros)

lemma get_group_token_again:
  assumes "get_group_token conn chat u1 = Inr (t1, conn1)"
  shows "get_group_token conn1 chat u2 = Inr (t1, conn1)"
proof (cases conn)
  case None
  with assms show ?thesis by (simp add: get_group_token_def)
next
  case (Some d)
  from get_group_token_cases [of d chat u1 t1 conn1] assms Some
  consider "select_token d (py_str chat) = Some t1" "conn1 = Some d"
    | "py_str chat \<notin> set (map fst (groups d))" "t1 = u1"
      "conn1 = Some (d\<lparr>groups := groups d @ [(py_str chat, u1)]\<rparr>)"
    by blast
  then show ?thesis
  proof cases
    case 1
    then show ?thesis by (simp add: get_group_token_def)
  next
    case 2
    from map_of_append_new [OF 2(1), of u1]
    have "select_token (d\<lparr>groups := groups d @ [(py_str chat, u1)]\<rparr>) (py_str chat) = Some u1"
      unfolding select_token_def by simp
    with 2 show ?thesis by (simp add: get_group_token_def)
  qed
qed

lemma get_group_token_known:
  assumes "token_bijection (Some d)" and "(py_str chat, t) \<in> set (groups d)"
  shows "get_group_token (Some d) chat u = Inr (t, Some d)"
proof -
  from assms have "map_of (groups d) (py_str chat) = Some t"
    by (simp add: token_bijection_def stored_groups_def)
  then show ?thesis by (simp add: get_group_token_def select_token_def)
qed

lemma evolves_groups:
  "evolves conn conn' \<Longrightarrow> conn \<noteq> None \<Longrightarrow> set (stored_groups conn) \<subseteq> set (stored_groups conn')"
proof (induction rule: evolves.induct)
  case (same conn)
  show ?case by simp
next
  case (message conn conn' upd net clock)
  then show ?case by (simp add: handle_message_groups)
next
  case (rssfeed conn conn' chat uuid4 token conn'')
  from evolves_Some [OF rssfeed.hyps(1) rssfeed.prems] obtain d where "conn' = Some d" by auto
  with get_group_token_stored [of d chat uuid4 token conn''] rssfeed show ?case by auto
qed

lemma evolves_bijection:
  "evolves conn conn' \<Longrightarrow> token_bijection conn \<Longrightarrow> token_bijection conn'"
proof (induction rule: evolves.induct)
  case (same conn)
  then show ?case .
next
  case (message conn conn' upd net clock)
  then show ?case by (simp add: token_bijection_def handle_message_groups)
next
  case (rssfeed conn conn' chat uuid4 token conn'')
  from rssfeed.hyps(2) rssfeed.IH [OF rssfeed.prems] show ?case
    by (rule get_group_token_bijection)
qed

lemma reachable_bijection: "reachable conn \<Longrightarrow> token_bijection conn"
  unfolding reachable_def
  by (erule evolves_bijection)
     (simp add: token_bijection_def stored_groups_def init_database_def empty_db_def)

lemma bijection_tokens:
  assumes "token_bijection conn" and "(g1, t1) \<in> set (stored_groups conn)"
    and "(g2, t2) \<in> set (stored_groups conn)"
  shows "g1 = g2 \<longleftrightarrow> t1 = t2"
proof -
  from assms(1) have "inj_on fst (set (stored_groups conn))" "inj_on snd (set (stored_groups conn))"
    by (simp_all add: token_bijection_def distinct_map)
  then have "fst (g1, t1) = fst (g2, t2) \<Longrightarrow> (g1, t1) = (g2, t2)"
    and "snd (g1, t1) = snd (g2, t2) \<Longrightarrow> (g1, t1) = (g2, t2)"
    using assms(2,3) by (blast dest: inj_onD)+
  then show ?thesis by auto
qed

lemma token_stable:
  assumes "reachable conn" and "get_group_token conn c1 u1 = Inr (t1, conn1)"
    and "evolves conn1 conn2" and "get_group_token conn2 c2 u2 = Inr (t2, conn3)"
  shows "py_str c1 = py_str c2 \<longleftrightarrow> t1 = t2"
proof -
  from reachable_Some [OF assms(1)] obtain d where d: "conn = Some d" by blast
  from get_group_token_stored [of d c1 u1 t1 conn1] assms(2) d
  have s1: "(py_str c1, t1) \<in> set (stored_groups conn1)" by simp
  from get_group_token_cases [of d c1 u1 t1 conn1] assms(2) d have n1: "conn1 \<noteq> None" by auto
  from evolves_Some [OF assms(3) n1] obtain d2 where d2: "conn2 = Some d2" by auto
  from evolves_groups [OF assms(3) n1] s1 have s2: "(py_str c1, t1) \<in> set (stored_groups conn2)"
    by blast
  from get_group_token_stored [of d2 c2 u2 t2 conn3] assms(4) d2 s2
  have in3: "(py_str c1, t1) \<in> set (stored_groups conn3)" "(py_str c2, t2) \<in> set (stored_groups conn3)"
    by auto
  have "evolves (init_database empty_db) conn1"
    using assms(1,2) unfolding reachable_def by (rule evolves.rssfeed)
  with assms(3) have "evolves (init_database empty_db) conn2" by (rule evolves_trans)
  then have "evolves (init_database empty_db) conn3" using assms(4) by (rule evolves.rssfeed)
  then have "token_bijection conn3" using reachable_bijection unfolding reachable_def by blast
  from bijection_tokens [OF this in3] show ?thesis .
qed

lemma digit_char_val: "d < 10 \<Longrightarrow> (of_char (digit_char d) :: nat) = 48 + d"
  by (simp add: digit_char_def)

lemma str_nat_value: "foldl (\<lambda>a c. 10 * a + (of_char c - 48)) 0 (str_nat n) = n"
proof (induction n rule: str_nat.induct)
  case (1 n)
  show ?case
  proof (cases "n < 10")
    case True
    then show ?thesis by (simp add: str_nat.simps [of n] digit_char_val)
  next
    case False
    with 1 show ?thesis by (simp add: str_nat.simps [of n] digit_char_val)
  qed
qed

lemma str_nat_inj: "str_nat a = str_nat b \<Longrightarrow> a = b"
  by (metis str_nat_value)

lemma str_nat_no_minus: "CHR ''-'' \<notin> set (str_nat n)"
proof (induction n rule: str_nat.induct)
  case (1 n)
  have d: "digit_char k \<noteq> CHR ''-''" if "k < 10" for k
  proof
    assume "digit_char k = CHR ''-''"
    then have "(of_char (digit_char k) :: nat) = of_char CHR ''-''" by simp
    with that show False by (simp add: digit_char_val)
  qed
  show ?case
  proof (cases "n < 10")
    case True
    then show ?thesis using d [of n] by (simp add: str_nat.simps [of n])
  next
    case False
    with 1 show ?thesis using d [of "n mod 10"] by (simp add: str_nat.simps [of n])
  qed
qed

lemma str_int_inj: "str_int a = str_int b \<Longrightarrow> a = b"
proof -
  assume e: "str_int a = str_int b"
  have m: "CHR ''-'' # xs \<noteq> str_nat n" for xs n
  proof
    assume "CHR ''-'' # xs = str_nat n"
    then have "CHR ''-'' \<in> set (str_nat n)" by (metis list.set_intros(1))
    with str_nat_no_minus [of n] show False by simp
  qed
  show "a = b"
  proof (cases "a < 0"; cases "b < 0")
    assume "a < 0" "b < 0"
    with e have "nat (- a) = nat (- b)" by (simp add: str_int_def str_nat_inj)
    with \<open>a < 0\<close> \<open>b < 0\<close> show ?thesis by simp
  next
    assume "a < 0" "\<not> b < 0"
    with e have "CHR ''-'' # str_nat (nat (- a)) = str_nat (nat b)" by (simp add: str_int_def)
    with m show ?thesis by blast
  next
    assume "\<not> a < 0" "b < 0"
    with e have "CHR ''-'' # str_nat (nat (- b)) = str_nat (nat a)" by (simp add: str_int_def)
    with m show ?thesis by blast
  next
    assume "\<not> a < 0" "\<not> b < 0"
    with e have "nat a = nat b" by (simp add: str_int_def str_nat_inj)
    with \<open>\<not> a < 0\<close> \<open>\<not> b < 0\<close> show ?thesis by simp
  qed
qed

lemma insert_group_twice:
  "insert_group d g t = Inr d' \<Longrightarrow> insert_group d' g t' = Inl IntegrityError"
  by (auto simp: insert_group_def split: if_splits)

lemma get_group_token_returns:
  assumes "u \<notin> set (map snd (stored_groups conn))"
  shows "\<exists>tok conn'. get_group_token conn chat u = Inr (tok, conn')"
proof (cases conn)
  case None
  then show ?thesis by (simp add: get_group_token_def)
next
  case (Some d)
  show ?thesis
  proof (cases "select_token d (py_str chat)")
    case (Some tok)
    with \<open>conn = Some d\<close> show ?thesis by (simp add: get_group_token_def)
  next
    case None
    then have "py_str chat \<notin> set (map fst (groups d))"
      by (simp add: select_token_def map_of_eq_None_iff)
    with assms None \<open>conn = Some d\<close> show ?thesis
      by (simp add: get_group_token_def insert_group_def stored_groups_def)
  qed
qed

text \<open>
  Claim C4 (token bijection). A second call of \<^verbatim>\<open>get_group_token\<close> for the same group
  returns the token of the first and leaves the database as the first left it. In every
  state of the running program no two rows of \<^verbatim>\<open>groups\<close> share a chat or a token. Two
  calls made at any two moments of a run return the same token exactly when they are for
  the same group. Callers that interleave are covered statement by statement: an
  \<^verbatim>\<open>INSERT\<close> into \<^verbatim>\<open>groups\<close> that succeeds keeps the table a bijection, whatever the
  caller read before, and a second \<^verbatim>\<open>INSERT\<close> for the same group is refused, so that a group
  never has two tokens. Two chats with different integer identifiers are different groups.
  A call returns a token unless the UUID it draws is already the token of a group.
\<close>

theorem token_bijection_holds:
  "(get_group_token conn chat u1 = Inr (t1, conn1) \<longrightarrow>
      get_group_token conn1 chat u2 = Inr (t1, conn1))
   \<and> (reachable conn \<longrightarrow> token_bijection conn)
   \<and> (reachable conn \<and> get_group_token conn c1 u1 = Inr (t1, conn1) \<and> evolves conn1 conn2
        \<and> get_group_token conn2 c2 u3 = Inr (t2, conn3) \<longrightarrow>
      (py_str c1 = py_str c2 \<longleftrightarrow> t1 = t2))
   \<and> (token_bijection (Some d) \<and> insert_group d g t = Inr d' \<longrightarrow> token_bijection (Some d'))
   \<and> (insert_group d g t = Inr d' \<longrightarrow> insert_group d' g t' = Inl IntegrityError)
   \<and> (py_str (ChatInt a) = py_str (ChatInt b) \<longleftrightarrow> a = b)
   \<and> (u1 \<notin> set (map snd (stored_groups conn)) \<longrightarrow>
        (\<exists>tok conn'. get_group_token conn chat u1 = Inr (tok, conn')))"
proof (intro conjI impI)
  assume "u1 \<notin> set (map snd (stored_groups conn))"
  then show "\<exists>tok conn'. get_group_token conn chat u1 = Inr (tok, conn')"
    by (rule get_group_token_returns)
next
  assume "get_group_token conn chat u1 = Inr (t1, conn1)"
  then show "get_group_token conn1 chat u2 = Inr (t1, conn1)" by (rule get_group_token_again)
next
  assume "reachable conn"
  then show "token_bijection conn" by (rule reachable_bijection)
next
  assume "reachable conn \<and> get_group_token conn c1 u1 = Inr (t1, conn1) \<and> evolves conn1 conn2
        \<and> get_group_token conn2 c2 u3 = Inr (t2, conn3)"
  then show "py_str c1 = py_str c2 \<longleftrightarrow> t1 = t2" using token_stable by blast
next
  assume "token_bijection (Some d) \<and> insert_group d g t = Inr d'"
  then show "token_bijection (Some d')" using insert_group_bijection by blast
next
  assume "insert_group d g t = Inr d'"
  then show "insert_group d' g t' = Inl IntegrityError" by (rule insert_group_twice)
next
  show "py_str (ChatInt a) = py_str (ChatInt b) \<longleftrightarrow> a = b"
    using str_int_inj [of a b] by auto
qed

theorem token_bijection_holds_witness:
  "reachable (Some empty_db)
   \<and> get_group_token (Some empty_db) (ChatInt 1) ''token-1'' = Inr (''token-1'', Some ex_db)
   \<and> get_group_token (Some ex_db) (ChatInt 1) ''token-9'' = Inr (''token-1'', Some ex_db)
   \<and> evolves (Some ex_db) (Some ex_db)
   \<and> get_group_token (Some ex_db) (ChatInt 2) ''token-2''
       = Inr (''token-2'', Some (ex_db\<lparr>groups := [(''1'', ''token-1''), (''2'', ''token-2'')]\<rparr>))
   \<and> py_str (ChatInt 1) \<noteq> py_str (ChatInt 2)
   \<and> reachable (Some ex_db)
   \<and> token_bijection (Some ex_db)
   \<and> insert_group empty_db ''1'' ''token-1'' = Inr ex_db
   \<and> insert_group ex_db ''1'' ''token-9'' = Inl IntegrityError"
proof -
  let ?db2 = "ex_db\<lparr>groups := [(''1'', ''token-1''), (''2'', ''token-2'')]\<rparr>"
  note t = token_bijection_holds [of "Some empty_db" "ChatInt 1" "''token-1''" "''token-1''"
      "Some ex_db" "''token-9''" "ChatInt 1" "Some ex_db" "ChatInt 2" "''token-2''" "''token-2''"
      "Some ?db2" empty_db "''1''" "''token-1''" ex_db "''token-9''" 1 2]
  have r0: "reachable (Some empty_db)"
    unfolding reachable_def init_database_def by (rule evolves.same)
  have g2: "get_group_token (Some ex_db) (ChatInt 2) ''token-2'' = Inr (''token-2'', Some ?db2)"
    by code_simp
  have i: "insert_group empty_db ''1'' ''token-1'' = Inr ex_db" by code_simp
  have b0: "token_bijection (Some empty_db)" using t r0 by blast
  from t ex_token have again:
    "get_group_token (Some ex_db) (ChatInt 1) ''token-9'' = Inr (''token-1'', Some ex_db)"
    by blast
  from t r0 ex_token g2 evolves.same [of "Some ex_db"]
  have diff: "py_str (ChatInt 1) \<noteq> py_str (ChatInt 2)" by simp
  from t b0 i have b1: "token_bijection (Some ex_db)" by blast
  from t i have twice: "insert_group ex_db ''1'' ''token-9'' = Inl IntegrityError" by blast
  from r0 ex_token again evolves.same [of "Some ex_db"] g2 diff ex_reachable b1 i twice
  show ?thesis by blast
qed

section \<open>Properties of the store reads and of the feed\<close>

lemma get_links_None: "get_links None chat n = []"
  by (simp add: get_links_def)

lemma get_links_Some:
  "get_links (Some d) chat n =
     map link_of_row (sql_limit n (sort_key (\<lambda>r. - c_date r)
        (group_links (Some d) (py_str chat))))"
  by (simp add: get_links_def select_links_def link_of_row_def group_links_def stored_links_def
        comp_def)

lemma sql_limit_map: "sql_limit n (map f xs) = map f (sql_limit n xs)"
  by (simp add: sql_limit_def take_map)

lemma sql_limit_length: "0 \<le> n \<Longrightarrow> length (sql_limit n xs) = min (nat n) (length xs)"
  by (simp add: sql_limit_def)

lemma sorted_desc_dates:
  "sorted_wrt (\<lambda>a b. ld_date b \<le> ld_date a)
     (map link_of_row (sort_key (\<lambda>r. - c_date r) rows))"
proof -
  have "sorted (map (\<lambda>r. - c_date r) (sort_key (\<lambda>r. - c_date r) rows))"
    by (rule sorted_sort_key)
  then have "sorted_wrt (\<lambda>a b. c_date b \<le> c_date a) (sort_key (\<lambda>r. - c_date r) rows)"
    by (simp add: sorted_map sorted_wrt_iff_nth_less)
  then show ?thesis by (simp add: sorted_wrt_map link_of_row_def)
qed

lemma sorted_wrt_sql_limit: "sorted_wrt P xs \<Longrightarrow> sorted_wrt P (sql_limit n xs)"
  by (simp add: sql_limit_def sorted_wrt_take)

lemma get_links_sorted: "sorted_wrt (\<lambda>a b. ld_date b \<le> ld_date a) (get_links conn chat n)"
proof (cases conn)
  case None
  then show ?thesis by (simp add: get_links_None)
next
  case (Some d)
  show ?thesis
    unfolding Some get_links_Some sql_limit_map [symmetric]
    by (rule sorted_wrt_sql_limit [OF sorted_desc_dates])
qed

lemma get_links_length:
  "0 \<le> n \<Longrightarrow> length (get_links conn chat n) = min (nat n) (length (group_links conn (py_str chat)))"
  by (cases conn) (simp_all add: get_links_None get_links_Some sql_limit_length group_links_def
        stored_links_def)

lemma get_links_split:
  "\<exists>rest. mset (map link_of_row (group_links conn (py_str chat)))
             = mset (get_links conn chat n) + mset rest
     \<and> (\<forall>a \<in> set (get_links conn chat n). \<forall>b \<in> set rest. ld_date b \<le> ld_date a)"
proof (cases conn)
  case None
  then show ?thesis by (simp add: get_links_None group_links_def stored_links_def)
next
  case (Some d)
  let ?xs = "map link_of_row (sort_key (\<lambda>r. - c_date r) (group_links (Some d) (py_str chat)))"
  have all: "mset ?xs = mset (map link_of_row (group_links conn (py_str chat)))"
    by (simp add: Some)
  have g: "get_links conn chat n = sql_limit n ?xs"
    by (simp add: Some get_links_Some sql_limit_map)
  have s: "sorted_wrt (\<lambda>a b. ld_date b \<le> ld_date a) ?xs" by (rule sorted_desc_dates)
  show ?thesis
  proof (cases "n < 0")
    case True
    with g all show ?thesis by (intro exI [of _ "[]"]) (simp add: sql_limit_def)
  next
    case False
    let ?k = "nat n"
    from False g have t: "get_links conn chat n = take ?k ?xs" by (simp add: sql_limit_def)
    have "mset (take ?k ?xs) + mset (drop ?k ?xs) = mset ?xs"
      by (metis append_take_drop_id mset_append)
    moreover from s have "sorted_wrt (\<lambda>a b. ld_date b \<le> ld_date a) (take ?k ?xs @ drop ?k ?xs)"
      by simp
    then have "\<forall>a \<in> set (take ?k ?xs). \<forall>b \<in> set (drop ?k ?xs). ld_date b \<le> ld_date a"
      unfolding sorted_wrt_append by blast
    ultimately show ?thesis unfolding t all [symmetric] by (intro exI [of _ "drop ?k ?xs"]) simp
  qed
qed

lemma rss_items_generate:
  "rss_items (generate_rss conn APP_URL strftime timestamp now chat)
     = map (rss_item strftime timestamp) (get_links conn chat 50)"
proof -
  have "filter (\<lambda>e. elem_tag e = ''item'') (map (rss_item strftime timestamp) ls)
      = map (rss_item strftime timestamp) ls" for ls
    by (induction ls) (simp_all add: rss_item_def)
  then show ?thesis
    by (simp add: rss_items_def generate_rss_def text_element_def Let_def)
qed

lemma rss_item_fields:
  "elem_tag (rss_item sf ts l) = ''item''
   \<and> item_field ''title'' (rss_item sf ts l) = Some (ld_title l)
   \<and> item_field ''link'' (rss_item sf ts l) = Some (ld_url l)
   \<and> item_field ''description'' (rss_item sf ts l) = Some (ld_description l)
   \<and> item_field ''pubDate'' (rss_item sf ts l) = Some (sf (ld_date l))
   \<and> item_field ''guid'' (rss_item sf ts l) = Some (ld_url l @ ''_'' @ ts (ld_date l))
   \<and> filter (\<lambda>e. elem_tag e = ''enclosure'') (elem_children (rss_item sf ts l))
       = (if truthy (ld_image l)
          then [Element ''enclosure''
                  [(''url'', str_opt (ld_image l)), (''type'', ''image/jpeg'')] None []]
          else [])"
  by (simp add: item_field_def rss_item_def text_element_def)

lemma get_links_dates:
  "\<exists>ds rest. ds = map ld_date (get_links conn chat n)
     \<and> sorted_wrt (\<lambda>a b. b \<le> a) ds
     \<and> mset (map c_date (group_links conn (py_str chat))) = mset ds + mset rest
     \<and> (\<forall>a \<in> set ds. \<forall>b \<in> set rest. b \<le> a)"
proof -
  from get_links_split [of conn chat n] obtain restl where
    r: "mset (map link_of_row (group_links conn (py_str chat)))
          = mset (get_links conn chat n) + mset restl"
       "\<forall>a \<in> set (get_links conn chat n). \<forall>b \<in> set restl. ld_date b \<le> ld_date a"
    by blast
  let ?ds = "map ld_date (get_links conn chat n)" and ?rest = "map ld_date restl"
  have d: "map c_date rows = map ld_date (map link_of_row rows)" for rows
    by (simp add: link_of_row_def)
  have "mset (map ld_date (map link_of_row (group_links conn (py_str chat))))
      = mset ?ds + mset ?rest"
    using arg_cong [OF r(1), of "image_mset ld_date"] by (simp add: multiset.map_comp)
  then have m: "mset (map c_date (group_links conn (py_str chat))) = mset ?ds + mset ?rest"
    unfolding d .
  have s: "sorted_wrt (\<lambda>a b. b \<le> a) ?ds"
    using get_links_sorted [of conn chat n] by (simp add: sorted_wrt_map)
  from r(2) have "\<forall>a \<in> set ?ds. \<forall>b \<in> set ?rest. b \<le> a" by auto
  with m s show ?thesis by blast
qed

text \<open>
  Claim C5 (feed window). The feed of a group has one entry per link that
  \<^verbatim>\<open>get_links\<close> returns with limit 50: their number is the number of stored links of the
  group, or 50 when there are more. The \<open>i\<close>-th entry is an \<^verbatim>\<open>item\<close> that carries the
  title, URL, description, date and identifier of the \<open>i\<close>-th link, and its image as an
  enclosure when it has one. The dates that the entries show are in descending order, and
  the dates of the links of the group are those shown and a rest of which none is more
  recent than any date shown.
\<close>

theorem feed_window:
  "rss_items (generate_rss conn APP_URL strftime timestamp now chat)
     = map (rss_item strftime timestamp) (get_links conn chat 50)
   \<and> length (rss_items (generate_rss conn APP_URL strftime timestamp now chat))
       = min 50 (length (group_links conn (py_str chat)))
   \<and> sorted_wrt (\<lambda>a b. ld_date b \<le> ld_date a) (get_links conn chat 50)
   \<and> (\<exists>rest. mset (map link_of_row (group_links conn (py_str chat)))
                = mset (get_links conn chat 50) + mset rest
        \<and> (\<forall>a \<in> set (get_links conn chat 50). \<forall>b \<in> set rest. ld_date b \<le> ld_date a))
   \<and> (\<forall>i < length (get_links conn chat 50).
         let e = rss_items (generate_rss conn APP_URL strftime timestamp now chat) ! i;
             l = get_links conn chat 50 ! i
         in elem_tag e = ''item''
            \<and> item_field ''title'' e = Some (ld_title l)
            \<and> item_field ''link'' e = Some (ld_url l)
            \<and> item_field ''description'' e = Some (ld_description l)
            \<and> item_field ''pubDate'' e = Some (strftime (ld_date l))
            \<and> item_field ''guid'' e = Some (ld_url l @ ''_'' @ timestamp (ld_date l))
            \<and> filter (\<lambda>x. elem_tag x = ''enclosure'') (elem_children e)
                = (if truthy (ld_image l)
                   then [Element ''enclosure''
                           [(''url'', str_opt (ld_image l)), (''type'', ''image/jpeg'')] None []]
                   else []))
   \<and> (\<exists>ds rest.
         map (item_field ''pubDate'') (rss_items (generate_rss conn APP_URL strftime timestamp now chat))
           = map (\<lambda>d. Some (strftime d)) ds
         \<and> length ds = min 50 (length (group_links conn (py_str chat)))
         \<and> sorted_wrt (\<lambda>a b. b \<le> a) ds
         \<and> mset (map c_date (group_links conn (py_str chat))) = mset ds + mset rest
         \<and> (\<forall>a \<in> set ds. \<forall>b \<in> set rest. b \<le> a))"
proof -
  let ?items = "rss_items (generate_rss conn APP_URL strftime timestamp now chat)"
  let ?ls = "get_links conn chat 50"
  have e: "?items = map (rss_item strftime timestamp) ?ls" by (rule rss_items_generate)
  have n: "length ?items = min 50 (length (group_links conn (py_str chat)))"
    using get_links_length [of 50 conn chat] by (simp add: e)
  have f: "\<forall>i < length ?ls.
         let e = ?items ! i; l = ?ls ! i
         in elem_tag e = ''item''
            \<and> item_field ''title'' e = Some (ld_title l)
            \<and> item_field ''link'' e = Some (ld_url l)
            \<and> item_field ''description'' e = Some (ld_description l)
            \<and> item_field ''pubDate'' e = Some (strftime (ld_date l))
            \<and> item_field ''guid'' e = Some (ld_url l @ ''_'' @ timestamp (ld_date l))
            \<and> filter (\<lambda>x. elem_tag x = ''enclosure'') (elem_children e)
                = (if truthy (ld_image l)
                   then [Element ''enclosure''
                           [(''url'', str_opt (ld_image l)), (''type'', ''image/jpeg'')] None []]
                   else [])"
    unfolding e Let_def using rss_item_fields [of strftime timestamp] by simp
  from get_links_dates [of conn chat 50] obtain ds rest where
    ds: "ds = map ld_date ?ls" "sorted_wrt (\<lambda>a b. b \<le> a) ds"
      "mset (map c_date (group_links conn (py_str chat))) = mset ds + mset rest"
      "\<forall>a \<in> set ds. \<forall>b \<in> set rest. b \<le> a"
    by blast
  have p: "map (item_field ''pubDate'') ?items = map (\<lambda>d. Some (strftime d)) ds"
    unfolding e ds(1) using rss_item_fields [of strftime timestamp] by (simp add: comp_def)
  have ld: "length ds = min 50 (length (group_links conn (py_str chat)))"
    using n unfolding e ds(1) by simp
  from p ld ds(2,3,4) have six: "\<exists>ds rest.
         map (item_field ''pubDate'') ?items = map (\<lambda>d. Some (strftime d)) ds
         \<and> length ds = min 50 (length (group_links conn (py_str chat)))
         \<and> sorted_wrt (\<lambda>a b. b \<le> a) ds
         \<and> mset (map c_date (group_links conn (py_str chat))) = mset ds + mset rest
         \<and> (\<forall>a \<in> set ds. \<forall>b \<in> set rest. b \<le> a)"
    by blast
  from e n get_links_sorted [of conn chat 50] get_links_split [of conn chat 50] f six
  show ?thesis by blast
qed

theorem feed_window_witness:
  "length (group_links (Some (ex_db\<lparr>links := ex_rows 75\<rparr>)) (py_str (ChatStr ''1''))) = 75
   \<and> length (rss_items (generate_rss (Some (ex_db\<lparr>links := ex_rows 75\<rparr>))
         ''http://localhost:8080'' ex_fmt ex_fmt 0 (ChatStr ''1''))) = 50
   \<and> get_links (Some (ex_db\<lparr>links := ex_rows 75\<rparr>)) (ChatStr ''1'') 50 \<noteq> []
   \<and> map ld_date (get_links (Some (ex_db\<lparr>links := ex_rows 4\<rparr>)) (ChatStr ''1'') 3) = [3, 2, 1]
   \<and> 0 < length (get_links (Some (ex_db\<lparr>links := ex_rows 4\<rparr>)) (ChatStr ''1'') 50)
   \<and> item_field ''pubDate'' (rss_items (generate_rss (Some (ex_db\<lparr>links := ex_rows 4\<rparr>))
         ''http://localhost:8080'' ex_fmt ex_fmt 0 (ChatStr ''1'')) ! 0) = Some ''3''
   \<and> item_field ''title'' (rss_items (generate_rss (Some (ex_db\<lparr>links := ex_rows 4\<rparr>))
         ''http://localhost:8080'' ex_fmt ex_fmt 0 (ChatStr ''1'')) ! 0) = Some ''http://a.example/x''"
proof -
  let ?conn = "Some (ex_db\<lparr>links := ex_rows 75\<rparr>)"
  let ?c4 = "Some (ex_db\<lparr>links := ex_rows 4\<rparr>)"
  have n: "length (group_links ?conn (py_str (ChatStr ''1''))) = 75"
    by (simp add: group_links_def stored_links_def ex_rows_def ex_row_def filter_map comp_def)
  note w = feed_window [of ?conn "''http://localhost:8080''" ex_fmt ex_fmt 0 "ChatStr ''1''"]
  from w have e: "rss_items (generate_rss ?conn ''http://localhost:8080'' ex_fmt ex_fmt 0
      (ChatStr ''1'')) = map (rss_item ex_fmt ex_fmt) (get_links ?conn (ChatStr ''1'') 50)"
    by (rule conjunct1)
  from w have "length (rss_items (generate_rss ?conn ''http://localhost:8080'' ex_fmt ex_fmt 0
      (ChatStr ''1''))) = min 50 (length (group_links ?conn (py_str (ChatStr ''1''))))"
    by (elim conjE)
  then have l: "length (rss_items (generate_rss ?conn ''http://localhost:8080'' ex_fmt ex_fmt 0
      (ChatStr ''1''))) = 50"
    unfolding n by simp
  have ne: "get_links ?conn (ChatStr ''1'') 50 \<noteq> []"
  proof
    assume "get_links ?conn (ChatStr ''1'') 50 = []"
    with e l show False by simp
  qed
  have o: "map ld_date (get_links ?c4 (ChatStr ''1'') 3) = [3, 2, 1]"
    by code_simp
  have p: "0 < length (get_links ?c4 (ChatStr ''1'') 50)" by code_simp
  have h: "ld_date (get_links ?c4 (ChatStr ''1'') 50 ! 0) = 3"
    "ld_title (get_links ?c4 (ChatStr ''1'') 50 ! 0) = ''http://a.example/x''"
    "ex_fmt 3 = ''3''"
    by code_simp+
  note w4 = feed_window [of ?c4 "''http://localhost:8080''" ex_fmt ex_fmt 0 "ChatStr ''1''"]
  from w4 have "\<forall>i < length (get_links ?c4 (ChatStr ''1'') 50).
      item_field ''pubDate'' (rss_items (generate_rss ?c4 ''http://localhost:8080'' ex_fmt ex_fmt 0
          (ChatStr ''1'')) ! i) = Some (ex_fmt (ld_date (get_links ?c4 (ChatStr ''1'') 50 ! i)))
      \<and> item_field ''title'' (rss_items (generate_rss ?c4 ''http://localhost:8080'' ex_fmt ex_fmt 0
          (ChatStr ''1'')) ! i) = Some (ld_title (get_links ?c4 (ChatStr ''1'') 50 ! i))"
    unfolding Let_def by blast
  with p h have f: "item_field ''pubDate'' (rss_items (generate_rss ?c4 ''http://localhost:8080''
        ex_fmt ex_fmt 0 (ChatStr ''1'')) ! 0) = Some ''3''"
      "item_field ''title'' (rss_items (generate_rss ?c4 ''http://localhost:8080''
        ex_fmt ex_fmt 0 (ChatStr ''1'')) ! 0) = Some ''http://a.example/x''"
    by simp_all
  from n l ne o p f show ?thesis by blast
qed

lemma link_of_row_of [simp]: "link_of_row (link_row_of g l) = l"
  by (simp add: link_of_row_def link_row_of_def)

lemma save_link_group_links:
  assumes "save_link (Some d) chat l = Inr conn'"
  shows "group_links conn' (py_str chat)
           = group_links (Some d) (py_str chat) @ [link_row_of (py_str chat) l]"
  using assms
  by (auto simp: save_link_Some group_links_def stored_links_def link_row_of_def
           split: if_splits)

lemma get_links_unlimited:
  "mset (get_links conn chat (- 1)) = mset (map link_of_row (group_links conn (py_str chat)))"
  by (cases conn)
     (simp_all add: get_links_None get_links_Some sql_limit_def group_links_def stored_links_def)

lemma get_links_limit: "get_links conn chat n = sql_limit n (get_links conn chat (- 1))"
  by (cases conn)
     (simp_all add: get_links_None get_links_Some sql_limit_map, simp_all add: sql_limit_def)

lemma in_window:
  assumes s: "sorted (map f xs)" and x: "x \<in> set xs"
    and c: "length (filter (\<lambda>y. f y \<le> f x) xs) \<le> n"
  shows "x \<in> set (take n xs)"
proof (rule ccontr)
  assume out: "x \<notin> set (take n xs)"
  let ?P = "\<lambda>y. f y \<le> f x"
  from x out have d: "x \<in> set (drop n xs)"
    by (metis Un_iff append_take_drop_id set_append)
  then have "drop n xs \<noteq> []" by auto
  then have len: "length (take n xs) = n" by simp
  from s have "sorted (map f (take n xs) @ map f (drop n xs))"
    by (metis append_take_drop_id map_append)
  then have le: "\<forall>a \<in> set (take n xs). \<forall>b \<in> set (drop n xs). f a \<le> f b"
    by (auto simp: sorted_append)
  with d have "filter ?P (take n xs) = take n xs" by (simp add: filter_id_conv)
  then have a: "length (filter ?P (take n xs)) = n" using len by simp
  from d have "x \<in> set (filter ?P (drop n xs))" by simp
  then have b: "0 < length (filter ?P (drop n xs))" by (metis length_pos_if_in_set)
  have "length (filter ?P xs) = length (filter ?P (take n xs)) + length (filter ?P (drop n xs))"
    by (metis append_take_drop_id filter_append length_append)
  with a b c show False by simp
qed

lemma get_links_window:
  assumes "save_link (Some d) chat l = Inr conn'"
    and "n < 0 \<or> int (length (filter (\<lambda>r. ld_date l \<le> c_date r) (group_links conn' (py_str chat)))) \<le> n"
  shows "l \<in> set (get_links conn' chat n)"
proof -
  let ?g = "py_str chat"
  let ?f = "\<lambda>r. - c_date r"
  let ?x = "link_row_of ?g l"
  let ?rows = "group_links conn' ?g"
  let ?xs = "sort_key ?f ?rows"
  from assms(1) obtain d' where d': "conn' = Some d'"
    by (auto simp: save_link_Some split: if_splits)
  from save_link_group_links [OF assms(1)] have x: "?x \<in> set ?xs" by simp
  have dx: "c_date ?x = ld_date l" by (simp add: link_row_of_def)
  have "?x \<in> set (sql_limit n ?xs)"
  proof (cases "n < 0")
    case True
    with x show ?thesis by (simp add: sql_limit_def)
  next
    case False
    with assms(2) have "length (filter (\<lambda>r. ld_date l \<le> c_date r) ?rows) \<le> nat n" by simp
    moreover have "length (filter (\<lambda>y. ?f y \<le> ?f ?x) ?xs)
        = length (filter (\<lambda>r. ld_date l \<le> c_date r) ?rows)"
    proof -
      have "mset (filter (\<lambda>y. ?f y \<le> ?f ?x) ?xs) = mset (filter (\<lambda>r. ld_date l \<le> c_date r) ?rows)"
        by (simp add: dx)
      then show ?thesis by (metis size_mset)
    qed
    ultimately have "length (filter (\<lambda>y. ?f y \<le> ?f ?x) ?xs) \<le> nat n" by simp
    from in_window [OF sorted_sort_key x this] False show ?thesis by (simp add: sql_limit_def)
  qed
  then have "link_of_row ?x \<in> link_of_row ` set (sql_limit n ?xs)" by (rule imageI)
  then have "l \<in> set (map link_of_row (sql_limit n ?xs))" by simp
  then show ?thesis by (simp add: d' get_links_Some)
qed

text \<open>
  Claim C10 (save and read back). After \<^verbatim>\<open>save_link\<close> has stored a link for a group, the
  links that \<^verbatim>\<open>get_links\<close> reads for the group without limit are those it read before and
  the saved link, with all of its fields as they were saved; with a limit it returns the
  first links of that list; the links returned are in descending order of date; and the
  saved link is among them whenever the limit is negative or the group has at most that
  many links no older than it.
\<close>

theorem save_read_roundtrip:
  assumes "save_link (Some d) chat l = Inr conn'"
  shows "mset (get_links conn' chat (- 1)) = add_mset l (mset (get_links (Some d) chat (- 1)))
    \<and> get_links conn' chat n = sql_limit n (get_links conn' chat (- 1))
    \<and> sorted_wrt (\<lambda>a b. ld_date b \<le> ld_date a) (get_links conn' chat n)
    \<and> (n < 0 \<or> int (length (filter (\<lambda>r. ld_date l \<le> c_date r)
                         (group_links conn' (py_str chat)))) \<le> n
         \<longrightarrow> l \<in> set (get_links conn' chat n))"
proof -
  have "mset (get_links conn' chat (- 1)) = add_mset l (mset (get_links (Some d) chat (- 1)))"
    unfolding get_links_unlimited save_link_group_links [OF assms] by simp
  with get_links_limit [of conn' chat n] get_links_sorted [of conn' chat n]
    get_links_window [OF assms, of n]
  show ?thesis by blast
qed


theorem save_read_roundtrip_witness:
  "save_link (Some (ex_db\<lparr>links := ex_rows 2\<rparr>)) (ChatInt 1) ex_link
     = Inr (Some (ex_db\<lparr>links := ex_rows 2 @ [link_row_of ''1'' ex_link]\<rparr>))
   \<and> int (length (filter (\<lambda>r. ld_date ex_link \<le> c_date r)
        (group_links (Some (ex_db\<lparr>links := ex_rows 2 @ [link_row_of ''1'' ex_link]\<rparr>))
           (py_str (ChatInt 1))))) \<le> 1
   \<and> ex_link \<in> set (get_links (Some (ex_db\<lparr>links := ex_rows 2 @ [link_row_of ''1'' ex_link]\<rparr>))
        (ChatInt 1) 1)
   \<and> get_links (Some (ex_db\<lparr>links := ex_rows 2 @ [link_row_of ''1'' ex_link]\<rparr>)) (ChatInt 1) 1
       = [ex_link]"
proof -
  let ?d = "ex_db\<lparr>links := ex_rows 2\<rparr>"
  let ?d' = "ex_db\<lparr>links := ex_rows 2 @ [link_row_of ''1'' ex_link]\<rparr>"
  have s: "save_link (Some ?d) (ChatInt 1) ex_link = Inr (Some ?d')" by code_simp
  have c: "int (length (filter (\<lambda>r. ld_date ex_link \<le> c_date r)
        (group_links (Some ?d') (py_str (ChatInt 1))))) \<le> 1" by code_simp
  from save_read_roundtrip [OF s, of 1] c
  have m: "ex_link \<in> set (get_links (Some ?d') (ChatInt 1) 1)" by blast
  have g: "get_links (Some ?d') (ChatInt 1) 1 = [ex_link]" by code_simp
  from s c m g show ?thesis by blast
qed

lemma filter_token:
  "distinct (map snd gs) \<Longrightarrow> (g, t) \<in> set gs \<Longrightarrow> filter (\<lambda>p. snd p = t) gs = [(g, t)]"
proof (induction gs)
  case Nil
  then show ?case by simp
next
  case (Cons p gs)
  show ?case
  proof (cases "p = (g, t)")
    case True
    with Cons.prems(1) have "t \<notin> snd ` set gs" by auto
    then have "filter (\<lambda>p. snd p = t) gs = []" by (auto simp: filter_empty_conv)
    with True show ?thesis by simp
  next
    case False
    with Cons.prems have in_gs: "(g, t) \<in> set gs" by simp
    then have "t \<in> snd ` set gs" by force
    with Cons.prems(1) have "snd p \<noteq> t" by auto
    with Cons.IH in_gs Cons.prems(1) show ?thesis by simp
  qed
qed

lemma rss_feed_valid:
  assumes "reachable conn" and "(g, token) \<in> set (stored_groups conn)"
  shows "rss_feed conn A sf ts now token
     = Inr (Response (generate_rss conn A sf ts now (ChatStr g)) ''application/rss+xml'')"
proof -
  from reachable_Some [OF assms(1)] obtain d where d: "conn = Some d" by blast
  from reachable_bijection [OF assms(1)] d have "distinct (map snd (groups d))"
    by (simp add: token_bijection_def stored_groups_def)
  from filter_token [OF this, of g token] assms(2) d
  have "filter (\<lambda>p. snd p = token) (groups d) = [(g, token)]" by (simp add: stored_groups_def)
  with d show ?thesis by (simp add: rss_feed_def)
qed

lemma rss_feed_unknown:
  assumes "reachable conn" and "token \<notin> set (map snd (stored_groups conn))"
  shows "rss_feed conn A sf ts now token = Inl (HTTPException 401 ''Unauthorized: Invalid token'')"
proof -
  from reachable_Some [OF assms(1)] obtain d where d: "conn = Some d" by blast
  with assms(2) have "filter (\<lambda>p. snd p = token) (groups d) = []"
    by (auto simp: filter_empty_conv stored_groups_def)
  with d show ?thesis by (simp add: rss_feed_def)
qed

lemma get_links_from_group:
  "l \<in> set (get_links conn chat n) \<Longrightarrow>
   \<exists>r \<in> set (stored_links conn). c_chat_id r = py_str chat \<and> l = link_of_row r"
proof (cases conn)
  case None
  assume "l \<in> set (get_links conn chat n)"
  with None show ?thesis by (simp add: get_links_None)
next
  case (Some d)
  assume "l \<in> set (get_links conn chat n)"
  then obtain r where r: "r \<in> set (sql_limit n (sort_key (\<lambda>r. - c_date r)
      (group_links (Some d) (py_str chat))))" "l = link_of_row r"
    by (auto simp: Some get_links_Some)
  from r(1) have "r \<in> set (group_links (Some d) (py_str chat))"
    by (auto simp: sql_limit_def split: if_splits dest: in_set_takeD)
  with r(2) Some show ?thesis by (auto simp: group_links_def)
qed

text \<open>
  Claim C6 (feed authentication), as amended. In a state of the running program, a request
  \<^verbatim>\<open>GET /rss\<close> whose token is the stored token of a group is answered 200 with the media
  type \<^verbatim>\<open>application/rss+xml\<close> and the feed of that group, each entry of which is made
  from a stored link of that group; a request whose token is no stored token is answered
  401 with the detail \<^verbatim>\<open>Unauthorized: Invalid token\<close>; a request without the parameter is
  answered 422 by the validation of the required parameter, before \<^verbatim>\<open>rss_feed\<close> runs.
\<close>

theorem feed_authentication:
  "(reachable conn \<and> (g, token) \<in> set (stored_groups conn) \<longrightarrow>
      get_rss conn A sf ts now (Some token)
        = \<lparr>status = 200, content_type = ''application/rss+xml'',
           payload = RssXml (generate_rss conn A sf ts now (ChatStr g))\<rparr>
      \<and> (\<forall>item \<in> set (rss_items (generate_rss conn A sf ts now (ChatStr g))).
            \<exists>r \<in> set (stored_links conn). c_chat_id r = g \<and> item = rss_item sf ts (link_of_row r)))
   \<and> (reachable conn \<and> token \<notin> set (map snd (stored_groups conn)) \<longrightarrow>
        get_rss conn A sf ts now (Some token)
          = \<lparr>status = 401, content_type = ''application/json'',
             payload = JsonDetail ''Unauthorized: Invalid token''\<rparr>)
   \<and> get_rss conn A sf ts now None
        = \<lparr>status = 422, content_type = ''application/json'', payload = JsonValidationError\<rparr>"
proof (intro conjI impI ballI)
  assume a: "reachable conn \<and> (g, token) \<in> set (stored_groups conn)"
  then show "get_rss conn A sf ts now (Some token)
        = \<lparr>status = 200, content_type = ''application/rss+xml'',
           payload = RssXml (generate_rss conn A sf ts now (ChatStr g))\<rparr>"
    using rss_feed_valid [of conn g token A sf ts now] by (simp add: get_rss_def)
next
  fix item
  assume "item \<in> set (rss_items (generate_rss conn A sf ts now (ChatStr g)))"
  then obtain l where l: "l \<in> set (get_links conn (ChatStr g) 50)" "item = rss_item sf ts l"
    by (auto simp: rss_items_generate)
  from get_links_from_group [OF l(1)] l(2)
  show "\<exists>r \<in> set (stored_links conn). c_chat_id r = g \<and> item = rss_item sf ts (link_of_row r)"
    by auto
next
  assume "reachable conn \<and> token \<notin> set (map snd (stored_groups conn))"
  then show "get_rss conn A sf ts now (Some token)
          = \<lparr>status = 401, content_type = ''application/json'',
             payload = JsonDetail ''Unauthorized: Invalid token''\<rparr>"
    by (simp add: get_rss_def rss_feed_unknown)
next
  show "get_rss conn A sf ts now None
        = \<lparr>status = 422, content_type = ''application/json'', payload = JsonValidationError\<rparr>"
    by (simp add: get_rss_def)
qed

text \<open>
  The claim as stated promises 401 for a request without the token parameter; the route
  answers 422.
\<close>

theorem missing_token_counterexample:
  "status (get_rss (Some ex_db) ''http://localhost:8080'' ex_fmt ex_fmt 0 None) = 422
   \<and> status (get_rss (Some ex_db) ''http://localhost:8080'' ex_fmt ex_fmt 0 None) \<noteq> 401"
  by (simp add: get_rss_def)

theorem feed_authentication_witness:
  "reachable (Some (ex_db\<lparr>links := [ex_row ''http://a.example/x'']\<rparr>))
   \<and> (''1'', ''token-1'') \<in> set (stored_groups (Some (ex_db\<lparr>links := [ex_row ''http://a.example/x'']\<rparr>)))
   \<and> ''token-2'' \<notin> set (map snd (stored_groups (Some (ex_db\<lparr>links := [ex_row ''http://a.example/x'']\<rparr>))))
   \<and> status (get_rss (Some (ex_db\<lparr>links := [ex_row ''http://a.example/x'']\<rparr>))
        ''http://localhost:8080'' ex_fmt ex_fmt 0 (Some ''token-1'')) = 200
   \<and> status (get_rss (Some (ex_db\<lparr>links := [ex_row ''http://a.example/x'']\<rparr>))
        ''http://localhost:8080'' ex_fmt ex_fmt 0 (Some ''token-2'')) = 401
   \<and> rss_items (generate_rss (Some (ex_db\<lparr>links := [ex_row ''http://a.example/x'']\<rparr>))
        ''http://localhost:8080'' ex_fmt ex_fmt 0 (ChatStr ''1''))
       = [rss_item ex_fmt ex_fmt (link_of_row (ex_row ''http://a.example/x''))]"
proof -
  let ?conn = "Some (ex_db\<lparr>links := [ex_row ''http://a.example/x'']\<rparr>)"
  have k: "(''1'', ''token-1'') \<in> set (stored_groups ?conn)"
    by (simp add: stored_groups_def ex_db_def)
  have u: "''token-2'' \<notin> set (map snd (stored_groups ?conn))"
    by (simp add: stored_groups_def ex_db_def)
  note a = feed_authentication [of ?conn "''1''" "''token-1''" "''http://localhost:8080''"
      ex_fmt ex_fmt 0]
  note b = feed_authentication [of ?conn "''1''" "''token-2''" "''http://localhost:8080''"
      ex_fmt ex_fmt 0]
  from a ex_reachable_link k
  have ok: "status (get_rss ?conn ''http://localhost:8080'' ex_fmt ex_fmt 0 (Some ''token-1'')) = 200"
    by simp
  from b ex_reachable_link u
  have no: "status (get_rss ?conn ''http://localhost:8080'' ex_fmt ex_fmt 0 (Some ''token-2'')) = 401"
    by simp
  have items: "rss_items (generate_rss ?conn ''http://localhost:8080'' ex_fmt ex_fmt 0 (ChatStr ''1''))
       = [rss_item ex_fmt ex_fmt (link_of_row (ex_row ''http://a.example/x''))]"
    by code_simp
  from ex_reachable_link k u ok no items show ?thesis by blast
qed

lemma guid_of_item:
  "item_field ''guid'' (rss_item sf ts l) = Some (ld_url l @ ''_'' @ ts (ld_date l))"
  by (simp add: item_field_def rss_item_def text_element_def)

lemma guids_of_feed:
  "map (item_field ''guid'') (rss_items (generate_rss conn A sf ts now chat))
     = map (\<lambda>l. Some (ld_url l @ ''_'' @ ts (ld_date l))) (get_links conn chat 50)"
  by (simp add: rss_items_generate guid_of_item comp_def)

lemma split_at_first:
  "c \<notin> set xs \<Longrightarrow> c \<notin> set ys \<Longrightarrow> xs @ c # s = ys @ c # s' \<Longrightarrow> xs = ys \<and> s = s'"
  by (induction xs arbitrary: ys; case_tac ys; auto)

lemma append_sep_eq:
  assumes "a @ c # x = b @ c # y" and "c \<notin> set x" and "c \<notin> set y"
  shows "a = b \<and> x = y"
proof -
  from assms(1) have "rev (a @ c # x) = rev (b @ c # y)" by simp
  then have "rev x @ c # rev a = rev y @ c # rev b" by simp
  moreover from assms(2,3) have "c \<notin> set (rev x)" "c \<notin> set (rev y)" by simp_all
  ultimately have "rev x = rev y \<and> rev a = rev b" by (rule split_at_first [rotated 2])
  then show ?thesis by simp
qed

lemma guid_inj:
  assumes "inj ts" and "\<forall>d. CHR ''_'' \<notin> set (ts d)"
  shows "item_field ''guid'' (rss_item sf ts l) = item_field ''guid'' (rss_item sf' ts l')
     \<longleftrightarrow> ld_url l = ld_url l' \<and> ld_date l = ld_date l'"
proof
  assume "item_field ''guid'' (rss_item sf ts l) = item_field ''guid'' (rss_item sf' ts l')"
  then have "ld_url l @ CHR ''_'' # ts (ld_date l) = ld_url l' @ CHR ''_'' # ts (ld_date l')"
    by (simp add: guid_of_item)
  from append_sep_eq [OF this] assms(2)
  have "ld_url l = ld_url l' \<and> ts (ld_date l) = ts (ld_date l')" by blast
  with assms(1) show "ld_url l = ld_url l' \<and> ld_date l = ld_date l'" by (auto dest: injD)
next
  assume "ld_url l = ld_url l' \<and> ld_date l = ld_date l'"
  then show "item_field ''guid'' (rss_item sf ts l) = item_field ''guid'' (rss_item sf' ts l')"
    by (simp add: guid_of_item)
qed

lemma digit_char_no_underscore: "k < 10 \<Longrightarrow> digit_char k \<noteq> CHR ''_''"
proof
  assume "k < 10" "digit_char k = CHR ''_''"
  then have "(of_char (digit_char k) :: nat) = of_char CHR ''_''" by simp
  with \<open>k < 10\<close> show False by (simp add: digit_char_val)
qed

lemma str_nat_no_underscore: "CHR ''_'' \<notin> set (str_nat n)"
proof (induction n rule: str_nat.induct)
  case (1 n)
  show ?case
  proof (cases "n < 10")
    case True
    then show ?thesis using digit_char_no_underscore [of n] by (simp add: str_nat.simps [of n])
  next
    case False
    with 1 show ?thesis
      using digit_char_no_underscore [of "n mod 10"] by (simp add: str_nat.simps [of n])
  qed
qed

lemma ex_fmt_inj: "inj ex_fmt"
  by (rule injI) (simp add: ex_fmt_def str_int_inj)

lemma ex_fmt_no_underscore: "\<forall>d. CHR ''_'' \<notin> set (ex_fmt d)"
  by (simp add: ex_fmt_def str_int_def str_nat_no_underscore)

text \<open>
  Claim C7 (entry identifiers), as amended. The identifier of a feed entry is the URL of its
  link, an underscore and the text of the timestamp of its date, and nothing else: the
  identifiers of a feed do not change when it is rendered again at another time. The text
  of a timestamp has no underscore and differs for different dates; then two entries, of
  one feed or of two, have the same identifier exactly when their links have the same URL
  and the same date.
\<close>

theorem entry_identifiers:
  assumes "inj ts" and "\<forall>d. CHR ''_'' \<notin> set (ts d)"
  shows "map (item_field ''guid'') (rss_items (generate_rss conn A sf ts now chat))
     = map (\<lambda>l. Some (ld_url l @ ''_'' @ ts (ld_date l))) (get_links conn chat 50)
   \<and> map (item_field ''guid'') (rss_items (generate_rss conn A sf ts now chat))
       = map (item_field ''guid'') (rss_items (generate_rss conn A' sf' ts now' chat))
   \<and> (item_field ''guid'' (rss_item sf ts l) = item_field ''guid'' (rss_item sf' ts l')
        \<longleftrightarrow> ld_url l = ld_url l' \<and> ld_date l = ld_date l')
   \<and> (\<forall>i j. i < length (get_links conn chat 50) \<and> j < length (get_links conn chat 50) \<longrightarrow>
         (item_field ''guid'' (rss_items (generate_rss conn A sf ts now chat) ! i)
            = item_field ''guid'' (rss_items (generate_rss conn A sf ts now chat) ! j)
          \<longleftrightarrow> ld_url (get_links conn chat 50 ! i) = ld_url (get_links conn chat 50 ! j)
              \<and> ld_date (get_links conn chat 50 ! i) = ld_date (get_links conn chat 50 ! j)))"
proof -
  have one: "map (item_field ''guid'') (rss_items (generate_rss conn A sf ts now chat))
     = map (\<lambda>l. Some (ld_url l @ ''_'' @ ts (ld_date l))) (get_links conn chat 50)"
    by (rule guids_of_feed)
  have two: "map (item_field ''guid'') (rss_items (generate_rss conn A sf ts now chat))
       = map (item_field ''guid'') (rss_items (generate_rss conn A' sf' ts now' chat))"
    by (simp add: guids_of_feed)
  note three = guid_inj [OF assms, of sf l sf' l']
  have four: "\<forall>i j. i < length (get_links conn chat 50) \<and> j < length (get_links conn chat 50) \<longrightarrow>
         (item_field ''guid'' (rss_items (generate_rss conn A sf ts now chat) ! i)
            = item_field ''guid'' (rss_items (generate_rss conn A sf ts now chat) ! j)
          \<longleftrightarrow> ld_url (get_links conn chat 50 ! i) = ld_url (get_links conn chat 50 ! j)
              \<and> ld_date (get_links conn chat 50 ! i) = ld_date (get_links conn chat 50 ! j))"
    using guid_inj [OF assms, of sf _ sf] by (simp add: rss_items_generate)
  from one two three four show ?thesis by blast
qed

text \<open>
  The claim as stated promises identifiers that are unique across all entries. The message
  of the specification's own scenario, with the same URL twice, handled while the clock
  reads the same value for both links, gives a feed with the same identifier twice.
\<close>

theorem duplicate_guid_counterexample:
  "map (item_field ''guid'')
     (rss_items (generate_rss
        (snd (handle_message (Some ex_db)
           (ex_new ''check this out http://a.example/x and http://a.example/x'') ex_net ex_clock))
        ''http://localhost:8080'' ex_fmt ex_fmt 0 (ChatStr ''1'')))
     = [Some ''http://a.example/x_0'', Some ''http://a.example/x_0'']
   \<and> \<not> distinct (map (item_field ''guid'')
     (rss_items (generate_rss
        (snd (handle_message (Some ex_db)
           (ex_new ''check this out http://a.example/x and http://a.example/x'') ex_net ex_clock))
        ''http://localhost:8080'' ex_fmt ex_fmt 0 (ChatStr ''1''))))"
  by code_simp

theorem entry_identifiers_witness:
  "inj ex_fmt
   \<and> (\<forall>d. CHR ''_'' \<notin> set (ex_fmt d))
   \<and> item_field ''guid'' (rss_item ex_fmt ex_fmt (link_of_row (ex_row ''http://a.example/x'')))
       = Some ''http://a.example/x_0''
   \<and> item_field ''guid'' (rss_item ex_fmt ex_fmt (link_of_row (ex_row ''http://a.example/x'')))
       \<noteq> item_field ''guid'' (rss_item ex_fmt ex_fmt (link_of_row (ex_row ''http://b.example/y'')))
   \<and> map (item_field ''guid'') (rss_items (generate_rss
         (Some (ex_db\<lparr>links := [ex_row ''http://a.example/x'']\<rparr>))
         ''http://localhost:8080'' ex_fmt ex_fmt 0 (ChatStr ''1'')))
       = map (item_field ''guid'') (rss_items (generate_rss
         (Some (ex_db\<lparr>links := [ex_row ''http://a.example/x'']\<rparr>))
         ''http://localhost:8080'' ex_fmt ex_fmt 99 (ChatStr ''1'')))"
proof -
  let ?conn = "Some (ex_db\<lparr>links := [ex_row ''http://a.example/x'']\<rparr>)"
  let ?l = "link_of_row (ex_row ''http://a.example/x'')"
  let ?l' = "link_of_row (ex_row ''http://b.example/y'')"
  note e = entry_identifiers [OF ex_fmt_inj ex_fmt_no_underscore,
      of ?conn "''http://localhost:8080''" ex_fmt 0 "ChatStr ''1''"
      "''http://localhost:8080''" ex_fmt 99 ?l ?l']
  have i: "item_field ''guid'' (rss_item ex_fmt ex_fmt ?l) = Some ''http://a.example/x_0''"
    by code_simp
  have u: "ld_url ?l \<noteq> ld_url ?l'" by (simp add: link_of_row_def ex_row_def)
  from e u have d: "item_field ''guid'' (rss_item ex_fmt ex_fmt ?l)
      \<noteq> item_field ''guid'' (rss_item ex_fmt ex_fmt ?l')" by blast
  from e have same: "map (item_field ''guid'') (rss_items (generate_rss ?conn
      ''http://localhost:8080'' ex_fmt ex_fmt 0 (ChatStr ''1'')))
    = map (item_field ''guid'') (rss_items (generate_rss ?conn
      ''http://localhost:8080'' ex_fmt ex_fmt 99 (ChatStr ''1'')))"
    by (elim conjE)
  from ex_fmt_inj ex_fmt_no_underscore i d same show ?thesis by blast
qed

end
